theory Spec2Isabelle
  imports Main "HOL-Library.Multiset" "HOL-Library.AList"
begin

section \<open>Distance-vector routing: the data of \<open>dvr.py\<close>\<close>

subsection \<open>Costs\<close>

text \<open>
  A cost in a routing table is either a Python \<open>int\<close> (an edge cost read by
  \<open>int(...)\<close>, the \<open>0\<close> of a router's own entry, or a sum of such) or the float
  \<open>math.inf\<close> of the default entry. Python's ints are unbounded. No other float arises:
  the only arithmetic of the program is the addition of line 133.
\<close>

datatype cost = Fin int | Inf

datatype py_error =
  KeyError | TypeError | OverflowError | SyntaxError | ValueError | IndexError

text \<open>
  \<open>int + int\<close> is exact. \<open>float + int\<close> and \<open>int + float\<close> first convert the int to
  a double, which raises \<open>OverflowError\<close> (int too large to convert to float) when the
  int rounds to a magnitude beyond the largest double, that is from
  \<open>2^1024 - 2^970\<close> on; otherwise the sum with \<open>inf\<close> is \<open>inf\<close>.
\<close>

definition float_limit :: int where
  "float_limit = 2 ^ 1024 - 2 ^ 970"

fun cost_add :: "cost \<Rightarrow> cost \<Rightarrow> py_error + cost" where
  "cost_add (Fin a) (Fin b) = Inr (Fin (a + b))"
| "cost_add Inf (Fin b) = (if \<bar>b\<bar> < float_limit then Inr Inf else Inl OverflowError)"
| "cost_add (Fin a) Inf = (if \<bar>a\<bar> < float_limit then Inr Inf else Inl OverflowError)"
| "cost_add Inf Inf = Inr Inf"

text \<open>Python's \<open><\<close> between ints and \<open>inf\<close>: exact, and never an error.\<close>

fun cost_lt :: "cost \<Rightarrow> cost \<Rightarrow> bool" where
  "cost_lt (Fin a) (Fin b) = (a < b)"
| "cost_lt (Fin a) Inf = True"
| "cost_lt Inf _ = False"

fun cost_le :: "cost \<Rightarrow> cost \<Rightarrow> bool" where
  "cost_le (Fin a) (Fin b) = (a \<le> b)"
| "cost_le _ Inf = True"
| "cost_le Inf (Fin b) = False"

subsection \<open>Table entries and routers\<close>

text \<open>
  A table entry is a two-element sequence \<open>[cost, next hop]\<close>. The default entry of the
  \<open>defaultdict\<close> and every entry written by the parser is a \<^emph>\<open>list\<close>; the entry a
  router holds for itself is the \<^emph>\<open>tuple\<close> \<open>(0, 'None')\<close> of line 34. Both can be
  read by index; only a list can be assigned to by index, a tuple raises
  \<open>TypeError\<close>; and a tuple never equals a list.
\<close>

datatype entry = Lst cost string | Tup cost string

fun cost_of :: "entry \<Rightarrow> cost" where
  "cost_of (Lst c h) = c"
| "cost_of (Tup c h) = c"

fun hop_of :: "entry \<Rightarrow> string" where
  "hop_of (Lst c h) = h"
| "hop_of (Tup c h) = h"

text \<open>
  The routing table is a \<open>defaultdict\<close>: a missing key reads as a fresh
  \<open>[math.inf, '[no path]']\<close>, and the read stores that default. Nothing in the program
  tells a stored default from a missing key (the update loop of lines 140-143 compares
  values, and printing first reads every router's key), so a table is a total function
  on names.
\<close>

type_synonym table = "string \<Rightarrow> entry"

definition default_entry :: entry where
  "default_entry = Lst Inf ''[no path]''"

record Router =
  name :: string
  queue :: "(table \<times> string) list"
  iterations :: nat
  neighbours :: "string list"
  appended_at :: "string \<Rightarrow> nat option"
  table :: table

definition Router_init :: "string \<Rightarrow> Router" where
  "Router_init nm =
     \<lparr> name = nm, queue = [], iterations = 0, neighbours = [],
       appended_at = (\<lambda>_. None),
       table = (\<lambda>_. default_entry)(nm := Tup (Fin 0) ''None'') \<rparr>"

section \<open>The relaxation of \<open>threaded\<close> (lines 126-137)\<close>

text \<open>
  One pass of the inner loop body, for the message \<open>(vec, sender)\<close> and the destination
  \<open>d\<close>: \<open>own\<close> is \<open>router.table\<close>, which the loops never write, and \<open>tc\<close> is
  \<open>table_copy\<close>. The cost is assigned first (and raises on a tuple), then the hop is
  read from \<open>table_copy[sender]\<close>, which is the entry just written when \<open>d\<close> is the
  sender.
\<close>

definition relax_entry :: "table \<Rightarrow> table \<Rightarrow> string \<Rightarrow> string \<Rightarrow> table \<Rightarrow> py_error + table" where
  "relax_entry own vec sender d tc =
     (case cost_add (cost_of (vec d)) (cost_of (own sender)) of
        Inl e \<Rightarrow> Inl e
      | Inr val \<Rightarrow>
          if cost_lt val (cost_of (tc d)) then
            (case tc d of
               Tup c h \<Rightarrow> Inl TypeError
             | Lst c h \<Rightarrow>
                 (let tc1 = tc(d := Lst val h)
                  in Inr (tc1(d := Lst val (hop_of (tc1 sender))))))
          else Inr tc)"

text \<open>The inner loop, over the keys of \<open>routers\<close> in the dict's order.\<close>

fun relax_message :: "table \<Rightarrow> table \<Rightarrow> string \<Rightarrow> string list \<Rightarrow> table \<Rightarrow> py_error + table" where
  "relax_message own vec sender [] tc = Inr tc"
| "relax_message own vec sender (d # ds) tc =
     (case relax_entry own vec sender d tc of
        Inl e \<Rightarrow> Inl e
      | Inr tc' \<Rightarrow> relax_message own vec sender ds tc')"

text \<open>The outer loop, over the messages of the queue in their order of arrival.\<close>

fun relax :: "table \<Rightarrow> string list \<Rightarrow> (table \<times> string) list \<Rightarrow> table \<Rightarrow> py_error + table" where
  "relax own ks [] tc = Inr tc"
| "relax own ks ((vec, sender) # q) tc =
     (case relax_message own vec sender ks tc of
        Inl e \<Rightarrow> Inl e
      | Inr tc' \<Rightarrow> relax own ks q tc')"

section \<open>The body of \<open>threaded\<close> after its wait (lines 120-146)\<close>

text \<open>
  \<open>threaded ks router\<close> is what one thread does to its router once the wait loop has
  ended, with \<open>queue router\<close> the messages it then finds and \<open>ks\<close> the keys of
  \<open>routers\<close>. The counter is incremented first. An exception of the relaxation ends the
  thread there: the table, the marks and the queue stay as they were. The result is the
  exception, if any, and the router as the thread leaves it.
\<close>

definition threaded :: "string list \<Rightarrow> Router \<Rightarrow> py_error option \<times> Router" where
  "threaded ks router =
     (let router1 = router\<lparr>iterations := iterations router + 1\<rparr>
      in case relax (table router1) ks (queue router1) (table router1) of
           Inl e \<Rightarrow> (Some e, router1)
         | Inr table_copy \<Rightarrow>
             (None,
              router1\<lparr>table := (\<lambda>key. if table router1 key \<noteq> table_copy key
                                       then table_copy key else table router1 key),
                      appended_at := (\<lambda>key. if table router1 key \<noteq> table_copy key
                                       then Some (iterations router1)
                                       else appended_at router1 key),
                      queue := []\<rparr>))"

section \<open>The relaxation as the specification words it\<close>

text \<open>
  Section 4.2 of the specification: a table maps a destination to a pair
  \<open>(cost, nextHop)\<close>, costs add with saturation at the infinity sentinel, and for each
  received \<open>(vector, senderID)\<close> and each destination \<open>d\<close> the candidate
  \<open>vector[d].cost + ownTable[senderID].cost\<close> replaces \<open>newTable[d]\<close> by
  \<open>(candidate, newTable[senderID].nextHop)\<close> when it is strictly less than
  \<open>newTable[d].cost\<close>. These definitions follow those words, not the code; they are
  what \<open>relax\<close> is compared with.
\<close>

type_synonym spec_table = "string \<Rightarrow> cost \<times> string"

fun spec_plus :: "cost \<Rightarrow> cost \<Rightarrow> cost" where
  "spec_plus (Fin a) (Fin b) = Fin (a + b)"
| "spec_plus _ _ = Inf"

definition spec_relax_dest ::
    "spec_table \<Rightarrow> spec_table \<Rightarrow> string \<Rightarrow> string \<Rightarrow> spec_table \<Rightarrow> spec_table" where
  "spec_relax_dest ownTable vector senderID d newTable =
     (let costToSender = fst (ownTable senderID);
          candidate = spec_plus (fst (vector d)) costToSender
      in if cost_lt candidate (fst (newTable d))
         then newTable(d := (candidate, snd (newTable senderID)))
         else newTable)"

definition spec_relax ::
    "spec_table \<Rightarrow> string list \<Rightarrow> (spec_table \<times> string) list \<Rightarrow> spec_table" where
  "spec_relax ownTable universe receivedVectors =
     fold (\<lambda>(vector, senderID) newTable.
             fold (spec_relax_dest ownTable vector senderID) universe newTable)
          receivedVectors ownTable"

text \<open>A table of the program read as a table of the specification.\<close>

definition as_spec_table :: "table \<Rightarrow> spec_table" where
  "as_spec_table t = (\<lambda>d. (cost_of (t d), hop_of (t d)))"

section \<open>The dict \<open>routers\<close> and \<open>input_parser\<close> (lines 69-105)\<close>

text \<open>
  \<open>routers\<close> is a dict from names to \<open>Router\<close> objects. A dict keeps its keys in the
  order of their first insertion, and an assignment to a key it has replaces the value
  in place: that is \<open>AList.update\<close> on an association list. \<open>routers[k]\<close> on an absent
  key raises \<open>KeyError\<close>.
\<close>

type_synonym routers = "(string \<times> Router) list"

definition make_routers :: "string list \<Rightarrow> routers" where
  "make_routers routerNames =
     fold (\<lambda>nm rs. AList.update nm (Router_init nm) rs) routerNames []"

text \<open>
  Lines 93-96 (and 99-102 with the roles swapped): \<open>routers[a].add_neighbours(b)\<close>,
  then \<open>routers[a].table[b][0] = cost\<close> and \<open>routers[a].table[b][1] = b\<close>. The first
  assignment raises \<open>TypeError\<close> when the entry is the tuple.
\<close>

definition link :: "string \<Rightarrow> string \<Rightarrow> int \<Rightarrow> routers \<Rightarrow> py_error + routers" where
  "link a b c rs =
     (case map_of rs a of
        None \<Rightarrow> Inl KeyError
      | Some r \<Rightarrow>
          (let r1 = r\<lparr>neighbours := neighbours r @ [b]\<rparr>
           in case table r1 b of
                Tup c0 h \<Rightarrow> Inl TypeError
              | Lst c0 h \<Rightarrow>
                  Inr (AList.update a (r1\<lparr>table := (table r1)(b := Lst (Fin c) b)\<rparr>) rs)))"

definition add_edge :: "string \<times> string \<times> int \<Rightarrow> routers \<Rightarrow> py_error + routers" where
  "add_edge e rs =
     (case e of (src, dest, c) \<Rightarrow>
        (case link src dest c rs of
           Inl err \<Rightarrow> Inl err
         | Inr rs1 \<Rightarrow> link dest src c rs1))"

fun add_edges :: "(string \<times> string \<times> int) list \<Rightarrow> routers \<Rightarrow> py_error + routers" where
  "add_edges [] rs = Inr rs"
| "add_edges (e # es) rs =
     (case add_edge e rs of
        Inl err \<Rightarrow> Inl err
      | Inr rs1 \<Rightarrow> add_edges es rs1)"

text \<open>
  \<open>input_parser\<close> on a file whose second line splits into \<open>routerNames\<close> and whose
  edge lines (the line \<open>EOF\<close> removed) split into the triples \<open>edges\<close>, the third
  token of each already converted by \<open>int\<close>. Reading the file and converting the
  tokens are not modelled; every exception inside the \<open>try\<close> is replaced by
  \<open>SyntaxError\<close>, which leaves \<open>main\<close> before the first round.
\<close>

definition input_parser ::
    "string list \<Rightarrow> (string \<times> string \<times> int) list \<Rightarrow> py_error + routers" where
  "input_parser routerNames edges =
     (case add_edges edges (make_routers routerNames) of
        Inl err \<Rightarrow> Inl SyntaxError
      | Inr rs \<Rightarrow> Inr rs)"

text \<open>
  The text layer of \<open>input_parser\<close> (lines 72-90), on the list \<open>lines\<close> that
  \<open>readlines\<close> returns. Two builtins are parameters: \<open>split_ws line\<close> is
  \<open>line.split()\<close>, and \<open>to_int s\<close> is \<open>int(s)\<close>, \<open>None\<close> when it raises
  \<open>ValueError\<close>. (A file that cannot be opened or read raises inside the same
  \<open>try\<close>.)

  \<open>"EOF" in line\<close> is the substring test.
\<close>

fun contains :: "string \<Rightarrow> string \<Rightarrow> bool" where
  "contains sub [] = (sub = [])"
| "contains sub (c # cs) = (take (length sub) (c # cs) = sub \<or> contains sub cs)"

text \<open>
  Lines 88-90: the three targets are unpacked from the tokens of the line, the third
  through \<open>int\<close>. Fewer or more than three tokens, or a third token that is no
  integer, raise \<open>ValueError\<close>.
\<close>

definition unpack_line ::
    "(string \<Rightarrow> int option) \<Rightarrow> string list \<Rightarrow> py_error + string \<times> string \<times> int" where
  "unpack_line to_int tokens =
     (case tokens of
        [src, dest, c] \<Rightarrow>
          (case to_int c of
             None \<Rightarrow> Inl ValueError
           | Some cost \<Rightarrow> Inr (src, dest, cost))
      | _ \<Rightarrow> Inl ValueError)"

text \<open>The loop of lines 86-102: each line is unpacked, then its edge is entered.\<close>

fun edge_loop ::
    "(string \<Rightarrow> string list) \<Rightarrow> (string \<Rightarrow> int option) \<Rightarrow> string list \<Rightarrow> routers \<Rightarrow>
       py_error + routers" where
  "edge_loop split_ws to_int [] rs = Inr rs"
| "edge_loop split_ws to_int (line # lines) rs =
     (case unpack_line to_int (split_ws line) of
        Inl err \<Rightarrow> Inl err
      | Inr e \<Rightarrow>
          (case add_edge e rs of
             Inl err \<Rightarrow> Inl err
           | Inr rs1 \<Rightarrow> edge_loop split_ws to_int lines rs1))"

text \<open>
  The lines the loop runs over (lines 81-83): the lines after the second, without the
  last of them when it contains \<open>EOF\<close>.
\<close>

definition edge_lines :: "string list \<Rightarrow> string list" where
  "edge_lines lines =
     (case drop 2 lines of
        [] \<Rightarrow> []
      | l # ls \<Rightarrow> if contains ''EOF'' (last (l # ls)) then butlast (l # ls) else l # ls)"

text \<open>
  \<open>input_parser\<close> on the lines of the file. \<open>lines[0]\<close> and \<open>lines[1]\<close> raise
  \<open>IndexError\<close> on a file of fewer lines, and so does \<open>lines[-1]\<close> when no line follows
  the second; every exception is replaced by \<open>SyntaxError\<close>.
\<close>

definition input_parser_file ::
    "(string \<Rightarrow> string list) \<Rightarrow> (string \<Rightarrow> int option) \<Rightarrow> string list \<Rightarrow>
       py_error + routers" where
  "input_parser_file split_ws to_int lines =
     (case (case lines of
              [] \<Rightarrow> Inl IndexError
            | l0 # ls0 \<Rightarrow>
                (case to_int l0 of
                   None \<Rightarrow> Inl ValueError
                 | Some no_of_routers \<Rightarrow>
                     (case ls0 of
                        [] \<Rightarrow> Inl IndexError
                      | l1 # ls \<Rightarrow>
                          if ls = [] then Inl IndexError
                          else edge_loop split_ws to_int (edge_lines lines)
                                 (make_routers (split_ws l1)))))
      of
        Inl err \<Rightarrow> Inl SyntaxError
      | Inr rs \<Rightarrow> Inr rs)"

section \<open>One round of the simulation (lines 182-189)\<close>

text \<open>
  \<open>add_to_queue\<close> (lines 152-160): the router \<open>nm\<close> appends a copy of its table, with
  its name, to the queue of each of its neighbours. Its own table does not change
  meanwhile (only its own thread writes it, after the sends), so the copy is taken once.
\<close>

fun add_to_queue_loop :: "table \<Rightarrow> string \<Rightarrow> string list \<Rightarrow> routers \<Rightarrow> py_error + routers" where
  "add_to_queue_loop t nm [] rs = Inr rs"
| "add_to_queue_loop t nm (nhbr # ns) rs =
     (case map_of rs nhbr of
        None \<Rightarrow> Inl KeyError
      | Some r \<Rightarrow>
          add_to_queue_loop t nm ns (AList.update nhbr (r\<lparr>queue := queue r @ [(t, nm)]\<rparr>) rs))"

definition add_to_queue :: "string \<Rightarrow> routers \<Rightarrow> py_error + routers" where
  "add_to_queue nm rs =
     (case map_of rs nm of
        None \<Rightarrow> Inl KeyError
      | Some r \<Rightarrow> add_to_queue_loop (table r) nm (neighbours r) rs)"

fun send_all :: "string list \<Rightarrow> routers \<Rightarrow> py_error + routers" where
  "send_all [] rs = Inr rs"
| "send_all (nm # nms) rs =
     (case add_to_queue nm rs of
        Inl err \<Rightarrow> Inl err
      | Inr rs1 \<Rightarrow> send_all nms rs1)"

text \<open>
  The threads of a round run concurrently. Every thread sends before it waits, and
  writes its own table only after its wait, so every message of a round carries the
  table its sender had before the round: a round is all the sends, then all the
  computations. What the scheduler decides is the order in which the messages arrive
  in each queue; \<open>sched n\<close> is the permutation it applies to the queue of \<open>n\<close>, relative
  to the order in which the threads were started. The wait of lines 116-118 ends when
  the queue has as many messages as the router has neighbours; with any other number
  of messages sent to it the thread is taken not to return (\<open>Hang\<close>). A round in which
  a thread raises is not continued: that thread leaves its queue as it is, and what the
  next round then does depends on the interleaving.
\<close>

datatype stop = Raised py_error | Hang

type_synonym scheduler = "string \<Rightarrow> (table \<times> string) list \<Rightarrow> (table \<times> string) list"

definition arrival_order :: "scheduler \<Rightarrow> bool" where
  "arrival_order sched = (\<forall>n q. mset (sched n q) = mset q)"

fun compute_all :: "scheduler \<Rightarrow> string list \<Rightarrow> routers \<Rightarrow> stop + routers" where
  "compute_all sched ks [] = Inr []"
| "compute_all sched ks ((n, r) # rs) =
     (if length (queue r) \<noteq> length (neighbours r) then Inl Hang
      else case threaded ks (r\<lparr>queue := sched n (queue r)\<rparr>) of
             (Some e, r') \<Rightarrow> Inl (Raised e)
           | (None, r') \<Rightarrow>
               (case compute_all sched ks rs of
                  Inl s \<Rightarrow> Inl s
                | Inr rs' \<Rightarrow> Inr ((n, r') # rs')))"

definition round_step :: "scheduler \<Rightarrow> routers \<Rightarrow> stop + routers" where
  "round_step sched rs =
     (case send_all (map fst rs) rs of
        Inl e \<Rightarrow> Inl (Raised e)
      | Inr rs1 \<Rightarrow> compute_all sched (map fst rs) rs1)"

text \<open>The rounds of \<open>main\<close>, one scheduler for each (\<open>main\<close> runs four).\<close>

fun run :: "scheduler list \<Rightarrow> routers \<Rightarrow> stop + routers" where
  "run [] rs = Inr rs"
| "run (sched # scheds) rs =
     (case round_step sched rs of
        Inl s \<Rightarrow> Inl s
      | Inr rs1 \<Rightarrow> run scheds rs1)"

text \<open>\<open>main\<close> up to its last round: the parser, then the rounds.\<close>

definition simulate ::
    "string list \<Rightarrow> (string \<times> string \<times> int) list \<Rightarrow> scheduler list \<Rightarrow> stop + routers" where
  "simulate routerNames edges scheds =
     (case input_parser routerNames edges of
        Inl e \<Rightarrow> Inl (Raised e)
      | Inr rs \<Rightarrow> run scheds rs)"

text \<open>The entry for \<open>d\<close> in the table of the router \<open>n\<close>, when there is such a router.\<close>

definition entry_at :: "stop + routers \<Rightarrow> string \<Rightarrow> string \<Rightarrow> entry option" where
  "entry_at res n d =
     (case res of
        Inl s \<Rightarrow> None
      | Inr rs \<Rightarrow> (case map_of rs n of None \<Rightarrow> None | Some r \<Rightarrow> Some (table r d)))"

text \<open>The list of neighbours of the router \<open>n\<close>, when there is such a router.\<close>

definition neighbours_at :: "stop + routers \<Rightarrow> string \<Rightarrow> string list option" where
  "neighbours_at res n =
     (case res of
        Inl s \<Rightarrow> None
      | Inr rs \<Rightarrow> (case map_of rs n of None \<Rightarrow> None | Some r \<Rightarrow> Some (neighbours r)))"

text \<open>\<open>main\<close> from the lines of the file.\<close>

definition simulate_file ::
    "(string \<Rightarrow> string list) \<Rightarrow> (string \<Rightarrow> int option) \<Rightarrow> string list \<Rightarrow>
       scheduler list \<Rightarrow> stop + routers" where
  "simulate_file split_ws to_int lines scheds =
     (case input_parser_file split_ws to_int lines of
        Inl e \<Rightarrow> Inl (Raised e)
      | Inr rs \<Rightarrow> run scheds rs)"

section \<open>Notions used in the proofs\<close>

text \<open>
  What one message does to the cost of one destination, and when one pass of the loop
  body raises nothing: the candidate is computed, and it does not improve a tuple.
\<close>

definition improve :: "table \<Rightarrow> table \<Rightarrow> string \<Rightarrow> string \<Rightarrow> cost \<Rightarrow> cost" where
  "improve own vec sender d c =
     (case cost_add (cost_of (vec d)) (cost_of (own sender)) of
        Inl e \<Rightarrow> c
      | Inr val \<Rightarrow> if cost_lt val c then val else c)"

definition improve_all :: "table \<Rightarrow> string list \<Rightarrow> string \<Rightarrow> table \<times> string \<Rightarrow> cost \<Rightarrow> cost" where
  "improve_all own ks k m c = (if k \<in> set ks then improve own (fst m) (snd m) k c else c)"

definition passes :: "table \<Rightarrow> table \<Rightarrow> string \<Rightarrow> string \<Rightarrow> table \<Rightarrow> bool" where
  "passes own vec sender d tc =
     (\<exists>val. cost_add (cost_of (vec d)) (cost_of (own sender)) = Inr val \<and>
        (\<forall>c h. tc d = Tup c h \<longrightarrow> \<not> cost_lt val c))"

text \<open>The costs of the table a relaxation returns, or nothing when it raised.\<close>

definition costs_of :: "py_error + table \<Rightarrow> (string \<Rightarrow> cost) option" where
  "costs_of res = (case res of Inl e \<Rightarrow> None | Inr t \<Rightarrow> Some (\<lambda>d. cost_of (t d)))"

text \<open>
  What holds of every router after the parser and after every round: the router's own
  entry is the tuple \<open>(0, 'None')\<close> and no other entry is a tuple; the router is not
  its own neighbour; the entry for a neighbour has a finite cost; an entry for another
  router with a finite cost names a neighbour as next hop; the queue is empty.
\<close>

definition table_inv :: "string \<Rightarrow> string set \<Rightarrow> table \<Rightarrow> bool" where
  "table_inv n N t =
     (t n = Tup (Fin 0) ''None'' \<and>
      (\<forall>d c h. t d = Tup c h \<longrightarrow> d = n) \<and>
      n \<notin> N \<and>
      (\<forall>m\<in>N. \<exists>x. cost_of (t m) = Fin x) \<and>
      (\<forall>d x. d \<noteq> n \<longrightarrow> cost_of (t d) = Fin x \<longrightarrow> hop_of (t d) \<in> N))"

definition router_inv :: "string \<Rightarrow> Router \<Rightarrow> bool" where
  "router_inv n r = (table_inv n (set (neighbours r)) (table r) \<and> queue r = [])"

text \<open>Every edge is listed at both of its ends, as often at the one as at the other.\<close>

definition links_symmetric :: "(string \<rightharpoonup> Router) \<Rightarrow> bool" where
  "links_symmetric m =
     (\<forall>n k r r'. m n = Some r \<longrightarrow> m k = Some r' \<longrightarrow>
        count_list (neighbours r) k = count_list (neighbours r') n)"

definition network_inv :: "routers \<Rightarrow> bool" where
  "network_inv rs =
     (distinct (map fst rs) \<and>
      (\<forall>n r. map_of rs n = Some r \<longrightarrow>
         router_inv n r \<and> set (neighbours r) \<subseteq> dom (map_of rs)) \<and>
      links_symmetric (map_of rs))"

text \<open>The router after lines 93-96 for the neighbour \<open>b\<close> at cost \<open>c\<close>.\<close>

definition linked :: "string \<Rightarrow> int \<Rightarrow> Router \<Rightarrow> Router" where
  "linked b c r =
     r\<lparr>neighbours := neighbours r @ [b], table := (table r)(b := Lst (Fin c) b)\<rparr>"

text \<open>
  A message in the queue of \<open>n\<close> was sent by a router of \<open>rs\<close> that lists \<open>n\<close> as a
  neighbour, and carries that router's table.
\<close>

definition sent_from :: "routers \<Rightarrow> string \<Rightarrow> table \<times> string \<Rightarrow> bool" where
  "sent_from rs n msg =
     (\<exists>r. map_of rs (snd msg) = Some r \<and> fst msg = table r \<and> n \<in> set (neighbours r))"

text \<open>Only queues differ between \<open>rs\<close> and \<open>rs1\<close>, by messages sent in \<open>rs\<close>.\<close>

definition queues_extended :: "routers \<Rightarrow> routers \<Rightarrow> bool" where
  "queues_extended rs rs1 =
     (map fst rs1 = map fst rs \<and>
      (\<forall>n r. map_of rs n = Some r \<longrightarrow>
         (\<exists>q. map_of rs1 n = Some (r\<lparr>queue := queue r @ q\<rparr>) \<and>
              (\<forall>msg\<in>set q. sent_from rs n msg))))"

text \<open>Which of two messages the scheduler lets arrive first.\<close>

definition first_wins :: "scheduler \<Rightarrow> string \<Rightarrow> table \<times> string \<Rightarrow> table \<times> string \<Rightarrow> bool" where
  "first_wins sched n a b = (sched n [a, b] = [a, b])"

text \<open>
  Input on which no thread raises: every edge joins two different routers of the list
  of names, at a positive cost below the first int that has no double. Then every cost
  in every table stays non-negative, and the cost to a neighbour stays below that bound.
\<close>

definition valid_edge :: "string list \<Rightarrow> string \<times> string \<times> int \<Rightarrow> bool" where
  "valid_edge nms e =
     (fst e \<noteq> fst (snd e) \<and> fst e \<in> set nms \<and> fst (snd e) \<in> set nms \<and>
      0 < snd (snd e) \<and> snd (snd e) < float_limit)"

fun nonneg :: "cost \<Rightarrow> bool" where
  "nonneg (Fin x) = (0 \<le> x)"
| "nonneg Inf = True"

definition costs_inv :: "Router \<Rightarrow> bool" where
  "costs_inv r =
     ((\<forall>d. nonneg (cost_of (table r d))) \<and>
      (\<forall>m\<in>set (neighbours r). \<exists>x. cost_of (table r m) = Fin x \<and> x < float_limit))"

section \<open>Example data: router \<open>A\<close> with the neighbours \<open>B\<close> and \<open>C\<close>\<close>

text \<open>
  The tables after initialisation of the network with the edges \<open>A-B\<close>, \<open>A-C\<close>,
  \<open>B-D\<close>, \<open>C-D\<close>, all of cost 1, and the messages \<open>B\<close> and \<open>C\<close> send to \<open>A\<close> in the
  first round.
\<close>

definition tableA :: table where
  "tableA = (\<lambda>k. default_entry)
     (''A'' := Tup (Fin 0) ''None'', ''B'' := Lst (Fin 1) ''B'', ''C'' := Lst (Fin 1) ''C'')"

definition tableB :: table where
  "tableB = (\<lambda>k. default_entry)
     (''B'' := Tup (Fin 0) ''None'', ''A'' := Lst (Fin 1) ''A'', ''D'' := Lst (Fin 1) ''D'')"

definition tableC :: table where
  "tableC = (\<lambda>k. default_entry)
     (''C'' := Tup (Fin 0) ''None'', ''A'' := Lst (Fin 1) ''A'', ''D'' := Lst (Fin 1) ''D'')"

definition routerA :: "(table \<times> string) list \<Rightarrow> Router" where
  "routerA q =
     \<lparr> name = ''A'', queue = q, iterations = 0, neighbours = [''B'', ''C''],
       appended_at = (\<lambda>k. None), table = tableA \<rparr>"

definition keysABCD :: "string list" where
  "keysABCD = [''A'', ''B'', ''C'', ''D'']"

text \<open>
  The same network after the first round, the messages having arrived in the order in
  which the threads were started, and the router \<open>A\<close> as it enters the second round.
\<close>

definition tableA1 :: table where
  "tableA1 = tableA(''D'' := Lst (Fin 2) ''B'')"

definition tableB1 :: table where
  "tableB1 = tableB(''C'' := Lst (Fin 2) ''A'')"

definition tableC1 :: table where
  "tableC1 = tableC(''B'' := Lst (Fin 2) ''A'')"

definition routerA1 :: "(table \<times> string) list \<Rightarrow> Router" where
  "routerA1 q =
     \<lparr> name = ''A'', queue = q, iterations = 1, neighbours = [''B'', ''C''],
       appended_at = (\<lambda>k. None)(''D'' := Some 1), table = tableA1 \<rparr>"

text \<open>
  A file with a self-loop, and the values of the two builtins on the strings of that
  file.
\<close>

definition example_lines :: "string list" where
  "example_lines =
     [''2\<newline>'', ''A B\<newline>'', ''A B 3\<newline>'', ''A A 1\<newline>'', ''EOF\<newline>'']"

definition example_split :: "string \<Rightarrow> string list" where
  "example_split line =
     (if line = ''A B\<newline>'' then [''A'', ''B'']
      else if line = ''A B 3\<newline>'' then [''A'', ''B'', ''3'']
      else if line = ''A A 1\<newline>'' then [''A'', ''A'', ''1'']
      else if line = ''2\<newline>'' then [''2'']
      else if line = ''EOF\<newline>'' then [''EOF'']
      else [])"

definition example_int :: "string \<Rightarrow> int option" where
  "example_int s =
     (if s = ''2\<newline>'' then Some 2
      else if s = ''1'' then Some 1
      else if s = ''3'' then Some 3
      else None)"

section \<open>Costs and their order\<close>

lemma cost_le_refl: "cost_le c c"
  by (cases c) auto

lemma cost_le_trans: "cost_le a b \<Longrightarrow> cost_le b c \<Longrightarrow> cost_le a c"
  by (cases a; cases b; cases c) auto

lemma cost_lt_le: "cost_lt a b \<Longrightarrow> cost_le a b"
  by (cases a; cases b) auto

lemma cost_lt_irrefl: "\<not> cost_lt c c"
  by (cases c) auto

lemma cost_lt_Fin: "cost_lt a b \<Longrightarrow> \<exists>x. a = Fin x"
  by (cases a) auto

lemma cost_add_spec: "cost_add a b = Inr v \<Longrightarrow> v = spec_plus a b"
  by (cases a; cases b) (auto split: if_splits)

section \<open>One pass of the loop body\<close>

lemma relax_entry_Inr:
  assumes "relax_entry own vec sender d tc = Inr tc'"
  shows "tc' = tc \<or>
     (\<exists>val c h. cost_add (cost_of (vec d)) (cost_of (own sender)) = Inr val \<and>
        cost_lt val (cost_of (tc d)) \<and> tc d = Lst c h \<and>
        tc' = tc(d := Lst val (if d = sender then h else hop_of (tc sender))))"
proof (cases "cost_add (cost_of (vec d)) (cost_of (own sender))")
  case (Inl e)
  with assms show ?thesis by (simp add: relax_entry_def)
next
  case (Inr val)
  show ?thesis
  proof (cases "cost_lt val (cost_of (tc d))")
    case False
    with Inr assms show ?thesis by (simp add: relax_entry_def)
  next
    case True
    show ?thesis
    proof (cases "tc d")
      case (Tup c h)
      with Inr True assms show ?thesis by (simp add: relax_entry_def)
    next
      case (Lst c h)
      with Inr True assms
      have "tc' = tc(d := Lst val (if d = sender then h else hop_of (tc sender)))"
        by (auto simp: relax_entry_def Let_def)
      with Inr True Lst show ?thesis by blast
    qed
  qed
qed

lemma relax_entry_le:
  "relax_entry own vec sender d tc = Inr tc' \<Longrightarrow> cost_le (cost_of (tc' k)) (cost_of (tc k))"
  by (drule relax_entry_Inr) (auto simp: cost_le_refl cost_lt_le)

lemma relax_entry_Tup_iff:
  "relax_entry own vec s d tc = Inr tc' \<Longrightarrow> (tc' k = Tup c h) = (tc k = Tup c h)"
  by (drule relax_entry_Inr) (auto split: if_splits)

lemma relax_entry_ok_iff:
  "(\<exists>tc'. relax_entry own vec s d tc = Inr tc') = passes own vec s d tc"
  by (cases "tc d")
     (auto simp: relax_entry_def passes_def Let_def split: sum.splits)

lemma relax_entry_cost:
  "relax_entry own vec s d tc = Inr tc' \<Longrightarrow>
     cost_of (tc' k) = (if k = d then improve own vec s d (cost_of (tc k)) else cost_of (tc k))"
  by (cases "tc d")
     (auto simp: relax_entry_def improve_def Let_def split: sum.splits if_splits)

lemma relax_entry_spec:
  assumes "relax_entry own vec s d tc = Inr tc'"
  shows "as_spec_table tc' =
           spec_relax_dest (as_spec_table own) (as_spec_table vec) s d (as_spec_table tc)"
proof -
  from assms obtain val where
    v: "cost_add (cost_of (vec d)) (cost_of (own s)) = Inr val"
    by (auto simp: relax_entry_def split: sum.splits)
  then have val: "val = spec_plus (cost_of (vec d)) (cost_of (own s))"
    by (rule cost_add_spec)
  show ?thesis
  proof (cases "cost_lt val (cost_of (tc d))")
    case False
    with v assms have "tc' = tc" by (simp add: relax_entry_def)
    with False val show ?thesis
      by (simp add: spec_relax_dest_def as_spec_table_def Let_def)
  next
    case True
    with v assms obtain c h where
      l: "tc d = Lst c h" and
      t: "tc' = tc(d := Lst val (if d = s then h else hop_of (tc s)))"
      by (cases "tc d") (auto simp: relax_entry_def Let_def)
    from True val l t show ?thesis
      by (auto simp: spec_relax_dest_def as_spec_table_def Let_def fun_eq_iff)
  qed
qed

lemma improve_idem: "improve own vec s d (improve own vec s d c) = improve own vec s d c"
  by (auto simp: improve_def cost_lt_irrefl split: sum.splits)

lemma improve_commute:
  "improve own v1 s1 d (improve own v2 s2 d c) = improve own v2 s2 d (improve own v1 s1 d c)"
proof -
  have m: "(if cost_lt a (if cost_lt b c then b else c) then a else (if cost_lt b c then b else c)) =
        (if cost_lt b (if cost_lt a c then a else c) then b else (if cost_lt a c then a else c))"
    for a b c
    by (cases a; cases b; cases c) auto
  show ?thesis
    by (auto simp only: improve_def m split: sum.splits)
qed

lemma improve_all_commute:
  "improve_all own ks k m1 \<circ> improve_all own ks k m2 =
   improve_all own ks k m2 \<circ> improve_all own ks k m1"
  by (auto simp: improve_all_def fun_eq_iff improve_commute)

lemma passes_cong:
  "(\<And>c h. (tc' d = Tup c h) = (tc d = Tup c h)) \<Longrightarrow> passes own vec s d tc' = passes own vec s d tc"
  by (simp add: passes_def)

section \<open>The loops of the relaxation\<close>

lemma relax_message_le:
  "relax_message own vec sender ds tc = Inr tc' \<Longrightarrow> cost_le (cost_of (tc' k)) (cost_of (tc k))"
proof (induction ds arbitrary: tc)
  case Nil
  then show ?case by (simp add: cost_le_refl)
next
  case (Cons d ds)
  then show ?case
    by (auto split: sum.splits intro: cost_le_trans relax_entry_le)
qed

lemma relax_le:
  "relax own ks q tc = Inr tc' \<Longrightarrow> cost_le (cost_of (tc' k)) (cost_of (tc k))"
proof (induction q arbitrary: tc)
  case Nil
  then show ?case by (simp add: cost_le_refl)
next
  case (Cons m q)
  then show ?case
    by (cases m) (auto split: sum.splits intro: cost_le_trans relax_message_le)
qed

lemma relax_message_Tup_iff:
  "relax_message own vec s ds tc = Inr tc' \<Longrightarrow> (tc' k = Tup c h) = (tc k = Tup c h)"
proof (induction ds arbitrary: tc)
  case Nil
  then show ?case by simp
next
  case (Cons d ds)
  then show ?case
    by (auto split: sum.splits simp: relax_entry_Tup_iff)
qed

lemma relax_Tup_iff:
  "relax own ks q tc = Inr tc' \<Longrightarrow> (tc' k = Tup c h) = (tc k = Tup c h)"
proof (induction q arbitrary: tc)
  case Nil
  then show ?case by simp
next
  case (Cons m q)
  then show ?case
    by (cases m) (auto split: sum.splits simp: relax_message_Tup_iff)
qed

lemma relax_message_ok_iff:
  "(\<exists>tc'. relax_message own vec s ds tc = Inr tc') = (\<forall>d\<in>set ds. passes own vec s d tc)"
proof (induction ds arbitrary: tc)
  case Nil
  then show ?case by simp
next
  case (Cons d ds)
  show ?case
  proof (cases "relax_entry own vec s d tc")
    case (Inl e)
    then have "\<not> passes own vec s d tc"
      using relax_entry_ok_iff [of own vec s d tc] by simp
    with Inl show ?thesis by simp
  next
    case (Inr tc1)
    then have p: "passes own vec s d tc"
      using relax_entry_ok_iff [of own vec s d tc] by auto
    have "passes own vec s x tc1 = passes own vec s x tc" for x
      by (rule passes_cong) (rule relax_entry_Tup_iff [OF Inr])
    with Inr p Cons.IH [of tc1] show ?thesis by simp
  qed
qed

lemma relax_ok_iff:
  "(\<exists>tc'. relax own ks q tc = Inr tc') =
     (\<forall>m\<in>set q. \<forall>d\<in>set ks. passes own (fst m) (snd m) d tc)"
proof (induction q arbitrary: tc)
  case Nil
  then show ?case by simp
next
  case (Cons m q)
  obtain vec s where m: "m = (vec, s)" by (cases m)
  show ?case
  proof (cases "relax_message own vec s ks tc")
    case (Inl e)
    then have "\<not> (\<forall>d\<in>set ks. passes own vec s d tc)"
      using relax_message_ok_iff [of own vec s ks tc] by simp
    with Inl m show ?thesis by auto
  next
    case (Inr tc1)
    then have p: "\<forall>d\<in>set ks. passes own vec s d tc"
      using relax_message_ok_iff [of own vec s ks tc] by auto
    have "passes own v t x tc1 = passes own v t x tc" for v t x
      by (rule passes_cong) (rule relax_message_Tup_iff [OF Inr])
    with Inr p m Cons.IH [of tc1] show ?thesis by simp
  qed
qed

lemma relax_message_cost:
  "relax_message own vec s ds tc = Inr tc' \<Longrightarrow>
     cost_of (tc' k) = (if k \<in> set ds then improve own vec s k (cost_of (tc k)) else cost_of (tc k))"
proof (induction ds arbitrary: tc)
  case Nil
  then show ?case by simp
next
  case (Cons d ds)
  from Cons.prems obtain tc1 where
    e: "relax_entry own vec s d tc = Inr tc1" and m: "relax_message own vec s ds tc1 = Inr tc'"
    by (auto split: sum.splits)
  show ?case
    using Cons.IH [OF m] relax_entry_cost [OF e, of k]
    by (auto simp: improve_idem)
qed

lemma relax_cost:
  "relax own ks q tc = Inr tc' \<Longrightarrow>
     cost_of (tc' k) = fold (improve_all own ks k) q (cost_of (tc k))"
proof (induction q arbitrary: tc)
  case Nil
  then show ?case by simp
next
  case (Cons m q)
  obtain vec s where m: "m = (vec, s)" by (cases m)
  from Cons.prems m obtain tc1 where
    e: "relax_message own vec s ks tc = Inr tc1" and r: "relax own ks q tc1 = Inr tc'"
    by (auto split: sum.splits)
  show ?case
    using Cons.IH [OF r] relax_message_cost [OF e, of k] m
    by (simp add: improve_all_def)
qed

lemma relax_message_spec:
  "relax_message own vec s ds tc = Inr tc' \<Longrightarrow>
     as_spec_table tc' =
       fold (spec_relax_dest (as_spec_table own) (as_spec_table vec) s) ds (as_spec_table tc)"
proof (induction ds arbitrary: tc)
  case Nil
  then show ?case by simp
next
  case (Cons d ds)
  from Cons.prems obtain tc1 where
    e: "relax_entry own vec s d tc = Inr tc1" and m: "relax_message own vec s ds tc1 = Inr tc'"
    by (auto split: sum.splits)
  show ?case
    using Cons.IH [OF m] relax_entry_spec [OF e] by simp
qed

lemma relax_spec:
  "relax own ks q tc = Inr tc' \<Longrightarrow>
     as_spec_table tc' =
       fold (\<lambda>(vector, senderID) newTable.
               fold (spec_relax_dest (as_spec_table own) vector senderID) ks newTable)
         (map (\<lambda>(vec, s). (as_spec_table vec, s)) q) (as_spec_table tc)"
proof (induction q arbitrary: tc)
  case Nil
  then show ?case by simp
next
  case (Cons m q)
  obtain vec s where m: "m = (vec, s)" by (cases m)
  from Cons.prems m obtain tc1 where
    e: "relax_message own vec s ks tc = Inr tc1" and r: "relax own ks q tc1 = Inr tc'"
    by (auto split: sum.splits)
  show ?case
    using Cons.IH [OF r] relax_message_spec [OF e] m by simp
qed

lemma relax_costs_perm:
  assumes "mset q = mset q'"
  shows "costs_of (relax own ks q tc0) = costs_of (relax own ks q' tc0)"
proof -
  from assms have s: "set q = set q'" by (rule mset_eq_setD)
  have ok: "(\<exists>tc. relax own ks q tc0 = Inr tc) = (\<exists>tc. relax own ks q' tc0 = Inr tc)"
    by (simp only: relax_ok_iff s)
  show ?thesis
  proof (cases "relax own ks q tc0")
    case (Inl e)
    with ok have "\<not> (\<exists>tc. relax own ks q' tc0 = Inr tc)" by simp
    then obtain e' where "relax own ks q' tc0 = Inl e'"
      by (cases "relax own ks q' tc0") auto
    with Inl show ?thesis by (simp add: costs_of_def)
  next
    case (Inr tc)
    with ok obtain tc' where t: "relax own ks q' tc0 = Inr tc'" by auto
    have "cost_of (tc' d) = cost_of (tc d)" for d
    proof -
      have "fold (improve_all own ks d) q = fold (improve_all own ks d) q'"
        by (rule fold_multiset_equiv) (simp_all add: improve_all_commute assms)
      then show ?thesis
        using relax_cost [OF t, of d] relax_cost [OF Inr, of d] by simp
    qed
    with Inr t show ?thesis by (simp add: costs_of_def)
  qed
qed

section \<open>The thread\<close>

lemma threaded_eq:
  "threaded ks router =
     (case relax (table router) ks (queue router) (table router) of
        Inl e \<Rightarrow> (Some e, router\<lparr>iterations := iterations router + 1\<rparr>)
      | Inr tc \<Rightarrow>
          (None, router\<lparr>iterations := iterations router + 1, table := tc,
             appended_at := (\<lambda>key. if table router key \<noteq> tc key
                               then Some (iterations router + 1)
                               else appended_at router key),
             queue := []\<rparr>))"
proof -
  have t: "(\<lambda>key. if table router key \<noteq> tc key then tc key else table router key) = tc"
    for tc by (simp add: fun_eq_iff)
  show ?thesis
    by (simp add: threaded_def Let_def t split: sum.splits cong: if_cong)
qed

lemmas example_defs = threaded_eq relax_entry_def Let_def float_limit_def default_entry_def
  tableA_def tableB_def tableC_def routerA_def keysABCD_def

section \<open>Claims about one thread\<close>

text \<open>
  C1. One call of the relaxation is the sweep the specification describes: for each
  received \<open>(vector, senderID)\<close>, in the order of the queue, and each destination \<open>d\<close>
  of the universe, the candidate is \<open>vector[d].cost\<close> plus the cost to the sender in
  the table as it was before the round, and a candidate strictly less than
  \<open>newTable[d].cost\<close> replaces the entry by the candidate with the next hop
  \<open>newTable[senderID].nextHop\<close>, not the sender. Whenever the thread completes, the
  table it leaves is the table \<open>spec_relax\<close> computes from the table it had.
\<close>

theorem threaded_relaxes_as_specified:
  assumes "fst (threaded ks router) = None"
  shows "as_spec_table (table (snd (threaded ks router))) =
           spec_relax (as_spec_table (table router)) ks
             (map (\<lambda>(vec, s). (as_spec_table vec, s)) (queue router))"
proof -
  from assms obtain tc where
    tc: "relax (table router) ks (queue router) (table router) = Inr tc"
    by (auto simp: threaded_eq split: sum.splits)
  then have "table (snd (threaded ks router)) = tc"
    by (simp add: threaded_eq)
  with relax_spec [OF tc] show ?thesis
    by (simp add: spec_relax_def)
qed

theorem threaded_relaxes_as_specified_witness:
  "fst (threaded keysABCD (routerA [(tableB, ''B''), (tableC, ''C'')])) = None \<and>
   as_spec_table (table (snd (threaded keysABCD (routerA [(tableB, ''B''), (tableC, ''C'')]))))
     ''D'' = (Fin 2, ''B'') \<and>
   spec_relax (as_spec_table tableA) keysABCD
     [(as_spec_table tableB, ''B''), (as_spec_table tableC, ''C'')] ''D'' = (Fin 2, ''B'')"
proof -
  let ?r = "routerA [(tableB, ''B''), (tableC, ''C'')]"
  have h: "fst (threaded keysABCD ?r) = None"
    by (simp add: example_defs)
  have "as_spec_table (table (snd (threaded keysABCD ?r))) ''D'' =
    spec_relax (as_spec_table tableA) keysABCD
      [(as_spec_table tableB, ''B''), (as_spec_table tableC, ''C'')] ''D''"
    using threaded_relaxes_as_specified [OF h] by (simp add: routerA_def)
  moreover have "spec_relax (as_spec_table tableA) keysABCD
      [(as_spec_table tableB, ''B''), (as_spec_table tableC, ''C'')] ''D'' = (Fin 2, ''B'')"
    by (simp add: spec_relax_def spec_relax_dest_def as_spec_table_def example_defs)
  ultimately show ?thesis using h by simp
qed

text \<open>
  C6, as stated, fails: the table a relaxation returns depends on the order in which
  the messages are processed. Router \<open>A\<close> learns of \<open>D\<close> from \<open>B\<close> and from \<open>C\<close>
  at the same cost 2; the message processed first sets the next hop, and the other is
  a tie.
\<close>

theorem relax_order_counterexample:
  "mset [(tableB, ''B''), (tableC, ''C'')] = mset [(tableC, ''C''), (tableB, ''B'')] \<and>
   map_sum id (\<lambda>t. t ''D'')
     (relax tableA keysABCD [(tableB, ''B''), (tableC, ''C'')] tableA) = Inr (Lst (Fin 2) ''B'') \<and>
   map_sum id (\<lambda>t. t ''D'')
     (relax tableA keysABCD [(tableC, ''C''), (tableB, ''B'')] tableA) = Inr (Lst (Fin 2) ''C'')"
  by (simp add: example_defs)

text \<open>
  C6, amended. The costs of the table a relaxation returns, and whether it returns one
  at all, do not depend on the order of the messages; and a candidate equal to the
  current cost of its destination leaves the table as it is. The next hops may depend
  on the order.
\<close>

theorem relax_costs_order_independent:
  assumes "mset q = mset q'"
  shows "costs_of (relax own ks q tc0) = costs_of (relax own ks q' tc0) \<and>
         (cost_add (cost_of (vec d)) (cost_of (own sender)) = Inr (cost_of (tc d)) \<longrightarrow>
            relax_entry own vec sender d tc = Inr tc)"
  using relax_costs_perm [OF assms]
  by (simp add: relax_entry_def cost_lt_irrefl)

theorem relax_costs_order_independent_witness:
  "mset [(tableB, ''B''), (tableC, ''C'')] = mset [(tableC, ''C''), (tableB, ''B'')] \<and>
   costs_of (relax tableA keysABCD [(tableB, ''B''), (tableC, ''C'')] tableA) =
     costs_of (relax tableA keysABCD [(tableC, ''C''), (tableB, ''B'')] tableA) \<and>
   cost_add (cost_of (tableC ''D'')) (cost_of (tableA ''C'')) =
     Inr (cost_of ((tableA(''D'' := Lst (Fin 2) ''B'')) ''D'')) \<and>
   relax_entry tableA tableC ''C'' ''D'' (tableA(''D'' := Lst (Fin 2) ''B'')) =
     Inr (tableA(''D'' := Lst (Fin 2) ''B''))"
proof -
  have h: "mset [(tableB, ''B''), (tableC, ''C'')] = mset [(tableC, ''C''), (tableB, ''B'')]"
    by (simp add: add_mset_commute)
  have t: "cost_add (cost_of (tableC ''D'')) (cost_of (tableA ''C'')) =
     Inr (cost_of ((tableA(''D'' := Lst (Fin 2) ''B'')) ''D''))"
    by (simp add: example_defs)
  from relax_costs_order_independent [OF h, of tableA keysABCD tableA tableC "''D''" "''C''"
      "tableA(''D'' := Lst (Fin 2) ''B'')"] h t
  show ?thesis by blast
qed

text \<open>
  C7. A thread that has computed the relaxed table replaces its router's table by it,
  marks with the new value of the counter exactly the destinations whose entry
  changed, has incremented the counter by one, and leaves the queue empty.
\<close>

theorem apply_round_effects:
  assumes "fst (threaded ks router) = None"
  shows "relax (table router) ks (queue router) (table router) =
           Inr (table (snd (threaded ks router))) \<and>
         (\<forall>dest. appended_at (snd (threaded ks router)) dest =
            (if table router dest \<noteq> table (snd (threaded ks router)) dest
             then Some (iterations router + 1)
             else appended_at router dest)) \<and>
         iterations (snd (threaded ks router)) = iterations router + 1 \<and>
         queue (snd (threaded ks router)) = []"
  using assms by (auto simp: threaded_eq split: sum.splits)

theorem apply_round_effects_witness:
  "fst (threaded keysABCD (routerA [(tableB, ''B''), (tableC, ''C'')])) = None \<and>
   table (snd (threaded keysABCD (routerA [(tableB, ''B''), (tableC, ''C'')]))) ''D'' =
     Lst (Fin 2) ''B'' \<and>
   appended_at (snd (threaded keysABCD (routerA [(tableB, ''B''), (tableC, ''C'')]))) ''D'' =
     Some 1 \<and>
   appended_at (snd (threaded keysABCD (routerA [(tableB, ''B''), (tableC, ''C'')]))) ''B'' =
     None \<and>
   iterations (snd (threaded keysABCD (routerA [(tableB, ''B''), (tableC, ''C'')]))) = 1 \<and>
   queue (snd (threaded keysABCD (routerA [(tableB, ''B''), (tableC, ''C'')]))) = []"
proof -
  let ?r = "routerA [(tableB, ''B''), (tableC, ''C'')]"
  have h: "fst (threaded keysABCD ?r) = None"
    by (simp add: example_defs)
  have d: "table (snd (threaded keysABCD ?r)) ''D'' = Lst (Fin 2) ''B''"
    and b: "table (snd (threaded keysABCD ?r)) ''B'' = Lst (Fin 1) ''B''"
    by (simp_all add: example_defs)
  have r: "table ?r ''D'' = Lst Inf ''[no path]''" "table ?r ''B'' = Lst (Fin 1) ''B''"
    "appended_at ?r ''B'' = None" "iterations ?r = 0"
    by (simp_all add: example_defs)
  from apply_round_effects [OF h] have
    "appended_at (snd (threaded keysABCD ?r)) ''D'' =
       (if table ?r ''D'' \<noteq> table (snd (threaded keysABCD ?r)) ''D''
        then Some (iterations ?r + 1) else appended_at ?r ''D'')"
    "appended_at (snd (threaded keysABCD ?r)) ''B'' =
       (if table ?r ''B'' \<noteq> table (snd (threaded keysABCD ?r)) ''B''
        then Some (iterations ?r + 1) else appended_at ?r ''B'')"
    "iterations (snd (threaded keysABCD ?r)) = iterations ?r + 1"
    "queue (snd (threaded keysABCD ?r)) = []"
    by blast+
  with h d b r show ?thesis by simp
qed






section \<open>The parser\<close>

lemma fold_update_map_of:
  "map_of (fold (\<lambda>nm rs. AList.update nm (f nm) rs) nms rs0) n =
     (if n \<in> set nms then Some (f n) else map_of rs0 n)"
  by (induction nms arbitrary: rs0) (auto simp: update_conv')

lemma fold_update_distinct:
  "distinct (map fst rs0) \<Longrightarrow>
     distinct (map fst (fold (\<lambda>nm rs. AList.update nm (f nm) rs) nms rs0))"
  by (induction nms arbitrary: rs0) (auto simp: distinct_update)

lemma make_routers_map_of:
  "map_of (make_routers nms) n = (if n \<in> set nms then Some (Router_init n) else None)"
  by (simp add: make_routers_def fold_update_map_of)

lemma make_routers_dom: "dom (map_of (make_routers nms)) = set nms"
  by (auto simp: dom_def make_routers_map_of)

lemma router_inv_init: "router_inv n (Router_init n)"
  by (simp add: router_inv_def table_inv_def Router_init_def default_entry_def)

lemma network_inv_router:
  "network_inv rs \<Longrightarrow> map_of rs n = Some r \<Longrightarrow> router_inv n r"
  unfolding network_inv_def by blast

lemma network_inv_neighbours:
  "network_inv rs \<Longrightarrow> map_of rs n = Some r \<Longrightarrow> set (neighbours r) \<subseteq> dom (map_of rs)"
  unfolding network_inv_def by blast

lemma network_inv_symmetric: "network_inv rs \<Longrightarrow> links_symmetric (map_of rs)"
  unfolding network_inv_def by blast

lemma network_inv_distinct: "network_inv rs \<Longrightarrow> distinct (map fst rs)"
  unfolding network_inv_def by blast

lemma network_invI:
  assumes "distinct (map fst rs)"
    and "\<And>n r. map_of rs n = Some r \<Longrightarrow> router_inv n r"
    and "\<And>n r. map_of rs n = Some r \<Longrightarrow> set (neighbours r) \<subseteq> dom (map_of rs)"
    and "links_symmetric (map_of rs)"
  shows "network_inv rs"
  unfolding network_inv_def using assms by blast

lemma router_inv_self: "router_inv n r \<Longrightarrow> table r n = Tup (Fin 0) ''None''"
  by (simp add: router_inv_def table_inv_def)

lemma router_inv_Lst: "router_inv n r \<Longrightarrow> d \<noteq> n \<Longrightarrow> \<exists>c h. table r d = Lst c h"
  by (cases "table r d") (auto simp: router_inv_def table_inv_def)

lemma network_inv_make_routers: "network_inv (make_routers nms)"
proof (rule network_invI)
  show "distinct (map fst (make_routers nms))"
    by (simp add: make_routers_def fold_update_distinct)
  show "router_inv n r" if "map_of (make_routers nms) n = Some r" for n r
    using that by (auto simp: make_routers_map_of router_inv_init split: if_splits)
  show "set (neighbours r) \<subseteq> dom (map_of (make_routers nms))"
    if "map_of (make_routers nms) n = Some r" for n r
    using that by (auto simp: make_routers_map_of Router_init_def split: if_splits)
  show "links_symmetric (map_of (make_routers nms))"
    unfolding links_symmetric_def
    by (auto simp: make_routers_map_of Router_init_def split: if_splits)
qed

lemma router_inv_linked:
  assumes "router_inv n r" and "b \<noteq> n"
  shows "router_inv n (linked b c r)"
  using assms unfolding router_inv_def table_inv_def linked_def by auto

lemma link_Inr:
  assumes "link a b c rs = Inr rs'"
  shows "\<exists>r c0 h. map_of rs a = Some r \<and> table r b = Lst c0 h \<and>
           rs' = AList.update a (linked b c r) rs"
  using assms
  by (auto simp: link_def linked_def Let_def split: option.splits entry.splits)

lemma link_ok:
  assumes "map_of rs a = Some r" and "table r b = Lst c0 h"
  shows "link a b c rs = Inr (AList.update a (linked b c r) rs)"
  using assms by (simp add: link_def linked_def Let_def)

lemma link_fails_self:
  assumes "network_inv rs"
  shows "\<exists>e. link a a c rs = Inl e"
proof (cases "map_of rs a")
  case None
  then show ?thesis by (simp add: link_def)
next
  case (Some r)
  with assms have "table r a = Tup (Fin 0) ''None''"
    by (blast dest: network_inv_router router_inv_self)
  with Some show ?thesis by (simp add: link_def Let_def)
qed

lemma add_edge_Inr:
  assumes inv: "network_inv rs" and ok: "add_edge (s, d, c) rs = Inr rs'"
  shows "\<exists>r1 r2. s \<noteq> d \<and> map_of rs s = Some r1 \<and> map_of rs d = Some r2 \<and>
           rs' = AList.update d (linked s c r2) (AList.update s (linked d c r1) rs)"
proof -
  from ok obtain rs1 where l1: "link s d c rs = Inr rs1" and l2: "link d s c rs1 = Inr rs'"
    by (auto simp: add_edge_def split: sum.splits)
  from link_fails_self [OF inv, of s c] l1 have ne: "s \<noteq> d" by auto
  from link_Inr [OF l1] obtain r1 where
    r1: "map_of rs s = Some r1" and rs1: "rs1 = AList.update s (linked d c r1) rs"
    by blast
  from link_Inr [OF l2] obtain r2 where
    r2: "map_of rs1 d = Some r2" and rs': "rs' = AList.update d (linked s c r2) rs1"
    by blast
  from r2 rs1 ne have "map_of rs d = Some r2" by (simp add: update_conv')
  with ne r1 rs1 rs' show ?thesis by blast
qed

lemma add_edge_ok:
  assumes inv: "network_inv rs" and ne: "s \<noteq> d"
    and r1: "map_of rs s = Some r1" and r2: "map_of rs d = Some r2"
  shows "add_edge (s, d, c) rs =
           Inr (AList.update d (linked s c r2) (AList.update s (linked d c r1) rs))"
proof -
  from network_inv_router [OF inv r1] ne obtain c1 h1 where t1: "table r1 d = Lst c1 h1"
    using router_inv_Lst [of s r1 d] by auto
  from network_inv_router [OF inv r2] ne obtain c2 h2 where t2: "table r2 s = Lst c2 h2"
    using router_inv_Lst [of d r2 s] by auto
  have l1: "link s d c rs = Inr (AList.update s (linked d c r1) rs)"
    by (rule link_ok [OF r1 t1])
  from r2 ne have "map_of (AList.update s (linked d c r1) rs) d = Some r2"
    by (simp add: update_conv')
  from link_ok [OF this t2] l1 show ?thesis
    by (simp add: add_edge_def)
qed

lemma add_edge_ok_iff:
  assumes "network_inv rs"
  shows "(\<exists>rs'. add_edge (s, d, c) rs = Inr rs') =
           (s \<noteq> d \<and> s \<in> dom (map_of rs) \<and> d \<in> dom (map_of rs))"
  using add_edge_Inr [OF assms] add_edge_ok [OF assms] by (fastforce simp: dom_def)

lemma neighbours_linked [simp]: "neighbours (linked b c r) = neighbours r @ [b]"
  by (simp add: linked_def)

lemma add_edge_inv:
  assumes inv: "network_inv rs" and ok: "add_edge (s, d, c) rs = Inr rs'"
  shows "network_inv rs' \<and> map fst rs' = map fst rs"
proof -
  from add_edge_Inr [OF inv ok] obtain r1 r2 where
    ne: "s \<noteq> d" and r1: "map_of rs s = Some r1" and r2: "map_of rs d = Some r2" and
    rs': "rs' = AList.update d (linked s c r2) (AList.update s (linked d c r1) rs)"
    by blast
  have m: "map_of rs' = (map_of rs)(s \<mapsto> linked d c r1, d \<mapsto> linked s c r2)"
    by (simp add: rs' update_conv')
  from r1 r2 have k: "s \<in> fst ` set rs" "d \<in> fst ` set rs"
    by (auto dest: map_of_SomeD intro: rev_image_eqI)
  then have keys: "map fst rs' = map fst rs"
    by (simp add: rs' update_keys)
  have dist: "distinct (map fst rs')"
    using network_inv_distinct [OF inv] keys by simp
  have dm: "dom (map_of rs') = dom (map_of rs)"
    using r1 r2 by (auto simp: m)
  have i1: "router_inv s (linked d c r1)"
    using network_inv_router [OF inv r1] ne by (auto intro: router_inv_linked)
  have i2: "router_inv d (linked s c r2)"
    using network_inv_router [OF inv r2] ne by (auto intro: router_inv_linked)
  have n1: "set (neighbours (linked d c r1)) \<subseteq> dom (map_of rs)"
    using network_inv_neighbours [OF inv r1] r2 by auto
  have n2: "set (neighbours (linked s c r2)) \<subseteq> dom (map_of rs)"
    using network_inv_neighbours [OF inv r2] r1 by auto
  have cases3: "n = d \<and> r = linked s c r2 \<or> n = s \<and> n \<noteq> d \<and> r = linked d c r1 \<or>
      n \<noteq> s \<and> n \<noteq> d \<and> map_of rs n = Some r"
    if "map_of rs' n = Some r" for n r
    using that by (auto simp: m split: if_splits)
  have sym: "links_symmetric (map_of rs)" by (rule network_inv_symmetric [OF inv])
  have c12: "count_list (neighbours r1) d = count_list (neighbours r2) s"
    using sym r1 r2 unfolding links_symmetric_def by blast
  have c1: "count_list (neighbours r1) k = count_list (neighbours r') s"
    if "map_of rs k = Some r'" for k r'
    using sym r1 that unfolding links_symmetric_def by blast
  have c2: "count_list (neighbours r2) k = count_list (neighbours r') d"
    if "map_of rs k = Some r'" for k r'
    using sym r2 that unfolding links_symmetric_def by blast
  have c0: "count_list (neighbours r) k = count_list (neighbours r') n"
    if "map_of rs n = Some r" "map_of rs k = Some r'" for n k r r'
    using sym that unfolding links_symmetric_def by blast
  show ?thesis
  proof (intro conjI network_invI)
    show "distinct (map fst rs')" by (rule dist)
    show "router_inv n r" if "map_of rs' n = Some r" for n r
      using cases3 [OF that] i1 i2 network_inv_router [OF inv] by auto
    show "set (neighbours r) \<subseteq> dom (map_of rs')" if "map_of rs' n = Some r" for n r
      unfolding dm using cases3 [OF that] n1 n2 network_inv_neighbours [OF inv] by blast
    show "links_symmetric (map_of rs')"
      unfolding links_symmetric_def
    proof (intro allI impI)
      fix n k r r'
      assume a: "map_of rs' n = Some r" and b: "map_of rs' k = Some r'"
      from cases3 [OF a] cases3 [OF b] ne
      show "count_list (neighbours r) k = count_list (neighbours r') n"
        using c12 c1 [of k r'] c2 [of k r'] c1 [of n r] c2 [of n r] c0 [of n r k r']
        by (elim disjE conjE) simp_all
    qed
    show "map fst rs' = map fst rs" by (rule keys)
  qed
qed

lemma add_edges_inv:
  "network_inv rs \<Longrightarrow> add_edges es rs = Inr rs' \<Longrightarrow>
     network_inv rs' \<and> map fst rs' = map fst rs"
proof (induction es arbitrary: rs)
  case Nil
  then show ?case by simp
next
  case (Cons e es)
  obtain s d c where e: "e = (s, d, c)" by (cases e)
  from Cons.prems e obtain rs1 where
    a: "add_edge (s, d, c) rs = Inr rs1" and r: "add_edges es rs1 = Inr rs'"
    by (auto split: sum.splits)
  from add_edge_inv [OF Cons.prems(1) a] Cons.IH [OF _ r] show ?case by simp
qed

lemma add_edges_ok_iff:
  "network_inv rs \<Longrightarrow>
     (\<exists>rs'. add_edges es rs = Inr rs') =
       (\<forall>e\<in>set es. fst e \<noteq> fst (snd e) \<and> fst e \<in> dom (map_of rs) \<and>
                    fst (snd e) \<in> dom (map_of rs))"
proof (induction es arbitrary: rs)
  case Nil
  then show ?case by simp
next
  case (Cons e es)
  obtain s d c where e: "e = (s, d, c)" by (cases e)
  show ?case
  proof (cases "add_edge (s, d, c) rs")
    case (Inl err)
    with add_edge_ok_iff [OF Cons.prems, of s d c] e show ?thesis by auto
  next
    case (Inr rs1)
    from add_edge_inv [OF Cons.prems Inr] have
      i: "network_inv rs1" and k: "map fst rs1 = map fst rs" by simp_all
    from k have "dom (map_of rs1) = dom (map_of rs)"
      by (simp add: dom_map_of_conv_image_fst flip: set_map)
    with Inr add_edge_ok_iff [OF Cons.prems, of s d c] Cons.IH [OF i] e show ?thesis
      by auto
  qed
qed

lemma input_parser_inv:
  assumes "input_parser nms es = Inr rs"
  shows "network_inv rs" and "dom (map_of rs) = set nms"
proof -
  from assms have a: "add_edges es (make_routers nms) = Inr rs"
    by (auto simp: input_parser_def split: sum.splits)
  from add_edges_inv [OF network_inv_make_routers a] show "network_inv rs" by simp
  from add_edges_inv [OF network_inv_make_routers a]
  have "map fst rs = map fst (make_routers nms)" by simp
  then have "dom (map_of rs) = dom (map_of (make_routers nms))"
    by (simp add: dom_map_of_conv_image_fst flip: set_map)
  then show "dom (map_of rs) = set nms" by (simp add: make_routers_dom)
qed

lemma input_parser_Inl: "input_parser nms es = Inl e \<Longrightarrow> e = SyntaxError"
  by (auto simp: input_parser_def split: sum.splits)

section \<open>The next hops a relaxation records\<close>

lemma relax_entry_table_inv:
  assumes inv: "table_inv n N tc" and s: "s \<in> N"
    and r: "relax_entry own vec s d tc = Inr tc'"
  shows "table_inv n N tc'"
proof -
  from relax_entry_Inr [OF r] show ?thesis
  proof
    assume "tc' = tc"
    with inv show ?thesis by simp
  next
    assume "\<exists>val c h. cost_add (cost_of (vec d)) (cost_of (own s)) = Inr val \<and>
        cost_lt val (cost_of (tc d)) \<and> tc d = Lst c h \<and>
        tc' = tc(d := Lst val (if d = s then h else hop_of (tc s)))"
    then obtain val c h where
      lt: "cost_lt val (cost_of (tc d))" and l: "tc d = Lst c h" and
      t: "tc' = tc(d := Lst val (if d = s then h else hop_of (tc s)))"
      by blast
    from inv l have dn: "d \<noteq> n" by (auto simp: table_inv_def)
    from inv s have sn: "s \<noteq> n" by (auto simp: table_inv_def)
    from inv s obtain x where fs: "cost_of (tc s) = Fin x" by (auto simp: table_inv_def)
    with inv sn have hs: "hop_of (tc s) \<in> N" by (auto simp: table_inv_def)
    have hd: "h \<in> N" if "d = s"
      using that hs l by simp
    from cost_lt_Fin [OF lt] obtain y where val: "val = Fin y" by blast
    show ?thesis
      unfolding table_inv_def
    proof (intro conjI)
      show "tc' n = Tup (Fin 0) ''None''"
        using inv dn by (simp add: t table_inv_def)
      show "\<forall>d c h. tc' d = Tup c h \<longrightarrow> d = n"
        using inv by (auto simp: t table_inv_def split: if_splits)
      show "n \<notin> N" using inv by (simp add: table_inv_def)
      show "\<forall>m\<in>N. \<exists>x. cost_of (tc' m) = Fin x"
        using inv val by (auto simp: t table_inv_def)
      show "\<forall>k x. k \<noteq> n \<longrightarrow> cost_of (tc' k) = Fin x \<longrightarrow> hop_of (tc' k) \<in> N"
        using inv hs hd by (auto simp: t table_inv_def)
    qed
  qed
qed

lemma relax_message_table_inv:
  "table_inv n N tc \<Longrightarrow> s \<in> N \<Longrightarrow> relax_message own vec s ds tc = Inr tc' \<Longrightarrow>
     table_inv n N tc'"
proof (induction ds arbitrary: tc)
  case Nil
  then show ?case by simp
next
  case (Cons d ds)
  from Cons.prems(3) obtain tc1 where
    e: "relax_entry own vec s d tc = Inr tc1" and m: "relax_message own vec s ds tc1 = Inr tc'"
    by (auto split: sum.splits)
  from Cons.IH [OF relax_entry_table_inv [OF Cons.prems(1,2) e] Cons.prems(2) m]
  show ?case .
qed

lemma relax_table_inv:
  "table_inv n N tc \<Longrightarrow> \<forall>msg\<in>set q. snd msg \<in> N \<Longrightarrow> relax own ks q tc = Inr tc' \<Longrightarrow>
     table_inv n N tc'"
proof (induction q arbitrary: tc)
  case Nil
  then show ?case by simp
next
  case (Cons m q)
  obtain vec s where m: "m = (vec, s)" by (cases m)
  from Cons.prems(3) m obtain tc1 where
    e: "relax_message own vec s ks tc = Inr tc1" and r: "relax own ks q tc1 = Inr tc'"
    by (auto split: sum.splits)
  from Cons.prems(2) m have s: "s \<in> N" and rest: "\<forall>msg\<in>set q. snd msg \<in> N" by auto
  from Cons.IH [OF relax_message_table_inv [OF Cons.prems(1) s e] rest r]
  show ?case .
qed

lemma threaded_table:
  "fst (threaded ks r) = None \<Longrightarrow>
     relax (table r) ks (queue r) (table r) = Inr (table (snd (threaded ks r)))"
  by (auto simp: threaded_eq split: sum.splits)

lemma threaded_neighbours [simp]: "neighbours (snd (threaded ks r)) = neighbours r"
  by (simp add: threaded_eq split: sum.splits)

lemma threaded_name [simp]: "name (snd (threaded ks r)) = name r"
  by (simp add: threaded_eq split: sum.splits)

lemma threaded_queue: "fst (threaded ks r) = None \<Longrightarrow> queue (snd (threaded ks r)) = []"
  by (auto simp: threaded_eq split: sum.splits)

lemma threaded_le:
  "cost_le (cost_of (table (snd (threaded ks r)) d)) (cost_of (table r d))"
  by (auto simp: threaded_eq cost_le_refl split: sum.splits dest: relax_le)

lemma threaded_Tup_iff:
  "(table (snd (threaded ks r)) k = Tup c h) = (table r k = Tup c h)"
  by (auto simp: threaded_eq split: sum.splits dest: relax_Tup_iff)

lemma threaded_router_inv:
  assumes inv: "router_inv n r" and q: "\<forall>msg\<in>set q. snd msg \<in> set (neighbours r)"
    and ok: "fst (threaded ks (r\<lparr>queue := q\<rparr>)) = None"
  shows "router_inv n (snd (threaded ks (r\<lparr>queue := q\<rparr>)))"
proof -
  from inv have t: "table_inv n (set (neighbours r)) (table r)"
    by (simp add: router_inv_def)
  from threaded_table [OF ok]
  have "relax (table r) ks q (table r) = Inr (table (snd (threaded ks (r\<lparr>queue := q\<rparr>))))"
    by simp
  from relax_table_inv [OF t q this] threaded_queue [OF ok] show ?thesis
    by (simp add: router_inv_def)
qed

section \<open>The sends and the computations of a round\<close>

lemma queues_extended_refl: "queues_extended rs rs"
proof -
  have "r\<lparr>queue := queue r @ []\<rparr> = r" for r :: Router by simp
  then show ?thesis
    unfolding queues_extended_def by (metis empty_iff list.set(1))
qed

lemma queues_extended_dom:
  "queues_extended rs rs1 \<Longrightarrow> dom (map_of rs1) = dom (map_of rs)"
  by (simp add: queues_extended_def dom_map_of_conv_image_fst flip: set_map)

lemma queues_extended_step:
  assumes ext: "queues_extended rs rs1" and r1: "map_of rs1 k = Some r1"
    and msg: "sent_from rs k msg"
  shows "queues_extended rs (AList.update k (r1\<lparr>queue := queue r1 @ [msg]\<rparr>) rs1)"
proof -
  from r1 have "k \<in> set (map fst rs1)"
    by (auto dest: map_of_SomeD intro: rev_image_eqI)
  moreover from ext have "map fst rs1 = map fst rs"
    by (simp add: queues_extended_def)
  ultimately
  have keys: "map fst (AList.update k (r1\<lparr>queue := queue r1 @ [msg]\<rparr>) rs1) = map fst rs"
    by (simp only: update_keys if_True)
  have "\<exists>q. map_of (AList.update k (r1\<lparr>queue := queue r1 @ [msg]\<rparr>) rs1) n =
            Some (r\<lparr>queue := queue r @ q\<rparr>) \<and> (\<forall>m\<in>set q. sent_from rs n m)"
    if n: "map_of rs n = Some r" for n r
  proof -
    from ext n obtain q where
      q: "map_of rs1 n = Some (r\<lparr>queue := queue r @ q\<rparr>)" "\<forall>m\<in>set q. sent_from rs n m"
      unfolding queues_extended_def by blast
    show ?thesis
    proof (cases "n = k")
      case True
      with q r1 have "r1\<lparr>queue := queue r1 @ [msg]\<rparr> = r\<lparr>queue := queue r @ (q @ [msg])\<rparr>"
        by auto
      with True have "map_of (AList.update k (r1\<lparr>queue := queue r1 @ [msg]\<rparr>) rs1) n =
          Some (r\<lparr>queue := queue r @ (q @ [msg])\<rparr>)"
        by (simp add: update_conv')
      moreover from q msg True have "\<forall>m\<in>set (q @ [msg]). sent_from rs n m" by auto
      ultimately show ?thesis by blast
    next
      case False
      with q show ?thesis by (auto simp: update_conv')
    qed
  qed
  with keys show ?thesis unfolding queues_extended_def by blast
qed

lemma add_to_queue_loop_ext:
  assumes "queues_extended rs rs1" and "map_of rs nm = Some r0"
    and "set ns \<subseteq> set (neighbours r0)"
    and "add_to_queue_loop (table r0) nm ns rs1 = Inr rs2"
  shows "queues_extended rs rs2"
  using assms
proof (induction ns arbitrary: rs1)
  case Nil
  then show ?case by simp
next
  case (Cons k ns)
  from Cons.prems(4) obtain r1 where
    r1: "map_of rs1 k = Some r1" and
    rest: "add_to_queue_loop (table r0) nm ns
             (AList.update k (r1\<lparr>queue := queue r1 @ [(table r0, nm)]\<rparr>) rs1) = Inr rs2"
    by (auto split: option.splits)
  from Cons.prems(2,3) have "sent_from rs k (table r0, nm)"
    by (simp add: sent_from_def)
  from queues_extended_step [OF Cons.prems(1) r1 this] Cons.prems(2,3) rest Cons.IH
  show ?case by simp
qed

lemma add_to_queue_ext:
  assumes ext: "queues_extended rs rs1" and ok: "add_to_queue nm rs1 = Inr rs2"
  shows "queues_extended rs rs2"
proof -
  from ok obtain r1 where
    r1: "map_of rs1 nm = Some r1" and
    l: "add_to_queue_loop (table r1) nm (neighbours r1) rs1 = Inr rs2"
    by (auto simp: add_to_queue_def split: option.splits)
  from r1 queues_extended_dom [OF ext] obtain r0 where r0: "map_of rs nm = Some r0"
    by (metis domD domI)
  with ext r1 have "table r1 = table r0" "neighbours r1 = neighbours r0"
    unfolding queues_extended_def by fastforce+
  with l add_to_queue_loop_ext [OF ext r0, of "neighbours r0" rs2] show ?thesis
    by simp
qed

lemma send_all_ext:
  "queues_extended rs rs1 \<Longrightarrow> send_all nms rs1 = Inr rs2 \<Longrightarrow> queues_extended rs rs2"
proof (induction nms arbitrary: rs1)
  case Nil
  then show ?case by simp
next
  case (Cons nm nms)
  from Cons.prems(2) obtain rs3 where
    a: "add_to_queue nm rs1 = Inr rs3" and s: "send_all nms rs3 = Inr rs2"
    by (auto split: sum.splits)
  from Cons.IH [OF add_to_queue_ext [OF Cons.prems(1) a] s] show ?case .
qed

lemma compute_all_Inr:
  "compute_all sched ks rs1 = Inr rs' \<Longrightarrow>
     map fst rs' = map fst rs1 \<and>
     (\<forall>n r1. map_of rs1 n = Some r1 \<longrightarrow>
        length (queue r1) = length (neighbours r1) \<and>
        fst (threaded ks (r1\<lparr>queue := sched n (queue r1)\<rparr>)) = None \<and>
        map_of rs' n = Some (snd (threaded ks (r1\<lparr>queue := sched n (queue r1)\<rparr>))))"
proof (induction rs1 arbitrary: rs')
  case Nil
  then show ?case by simp
next
  case (Cons p rs1)
  obtain k r where p: "p = (k, r)" by (cases p)
  from Cons.prems p obtain r' rs'' where
    len: "length (queue r) = length (neighbours r)" and
    t: "threaded ks (r\<lparr>queue := sched k (queue r)\<rparr>) = (None, r')" and
    c: "compute_all sched ks rs1 = Inr rs''" and rs': "rs' = (k, r') # rs''"
    by (auto split: if_splits prod.splits option.splits sum.splits)
  from Cons.IH [OF c] p len t rs' show ?case by auto
qed

lemma arrival_order_set: "arrival_order sched \<Longrightarrow> set (sched n q) = set q"
  unfolding arrival_order_def by (metis set_mset_mset)

lemma arrival_order_length: "arrival_order sched \<Longrightarrow> length (sched n q) = length q"
  unfolding arrival_order_def by (metis size_mset)

lemma round_step_Inr:
  assumes step: "round_step sched rs = Inr rs'" and ord: "arrival_order sched"
    and r: "map_of rs n = Some r" and empty: "queue r = []"
  shows "\<exists>q. (\<forall>msg\<in>set q. sent_from rs n msg) \<and>
           fst (threaded (map fst rs) (r\<lparr>queue := q\<rparr>)) = None \<and>
           map_of rs' n = Some (snd (threaded (map fst rs) (r\<lparr>queue := q\<rparr>)))"
proof -
  from step obtain rs1 where
    s: "send_all (map fst rs) rs = Inr rs1" and
    c: "compute_all sched (map fst rs) rs1 = Inr rs'"
    by (auto simp: round_step_def split: sum.splits)
  from send_all_ext [OF queues_extended_refl s] r empty obtain q where
    q: "map_of rs1 n = Some (r\<lparr>queue := q\<rparr>)" "\<forall>msg\<in>set q. sent_from rs n msg"
    unfolding queues_extended_def by fastforce
  from compute_all_Inr [OF c] q(1) have
    "fst (threaded (map fst rs) (r\<lparr>queue := sched n q\<rparr>)) = None"
    "map_of rs' n = Some (snd (threaded (map fst rs) (r\<lparr>queue := sched n q\<rparr>)))"
    by fastforce+
  moreover from q(2) arrival_order_set [OF ord, of n q]
  have "\<forall>msg\<in>set (sched n q). sent_from rs n msg" by simp
  ultimately show ?thesis by blast
qed

lemma round_step_keys:
  assumes "round_step sched rs = Inr rs'"
  shows "map fst rs' = map fst rs"
proof -
  from assms obtain rs1 where
    s: "send_all (map fst rs) rs = Inr rs1" and
    c: "compute_all sched (map fst rs) rs1 = Inr rs'"
    by (auto simp: round_step_def split: sum.splits)
  from send_all_ext [OF queues_extended_refl s] compute_all_Inr [OF c] show ?thesis
    by (simp add: queues_extended_def)
qed

lemma sent_from_neighbour:
  assumes inv: "network_inv rs" and r: "map_of rs n = Some r" and msg: "sent_from rs n msg"
  shows "snd msg \<in> set (neighbours r)"
proof -
  from msg obtain rm where
    rm: "map_of rs (snd msg) = Some rm" and n: "n \<in> set (neighbours rm)"
    by (auto simp: sent_from_def)
  from network_inv_symmetric [OF inv] r rm
  have "count_list (neighbours r) (snd msg) = count_list (neighbours rm) n"
    unfolding links_symmetric_def by blast
  with n show ?thesis by (metis count_list_0_iff)
qed

lemma round_step_inv:
  assumes inv: "network_inv rs" and ord: "arrival_order sched"
    and step: "round_step sched rs = Inr rs'"
  shows "network_inv rs'"
proof -
  have keys: "map fst rs' = map fst rs" by (rule round_step_keys [OF step])
  then have dm: "dom (map_of rs') = dom (map_of rs)"
    by (simp add: dom_map_of_conv_image_fst flip: set_map)
  have after: "\<exists>r q. map_of rs n = Some r \<and> (\<forall>msg\<in>set q. snd msg \<in> set (neighbours r)) \<and>
      fst (threaded (map fst rs) (r\<lparr>queue := q\<rparr>)) = None \<and>
      r' = snd (threaded (map fst rs) (r\<lparr>queue := q\<rparr>))"
    if "map_of rs' n = Some r'" for n r'
  proof -
    from that dm obtain r where r: "map_of rs n = Some r" by (metis domD domI)
    from network_inv_router [OF inv r] have "queue r = []" by (simp add: router_inv_def)
    from round_step_Inr [OF step ord r this] obtain q where
      q: "\<forall>msg\<in>set q. sent_from rs n msg"
        "fst (threaded (map fst rs) (r\<lparr>queue := q\<rparr>)) = None"
        "map_of rs' n = Some (snd (threaded (map fst rs) (r\<lparr>queue := q\<rparr>)))"
      by blast
    from q(1) have "\<forall>msg\<in>set q. snd msg \<in> set (neighbours r)"
      using sent_from_neighbour [OF inv r] by blast
    with q(2,3) that r show ?thesis by auto
  qed
  have nb: "\<exists>r. map_of rs n = Some r \<and> neighbours r' = neighbours r"
    if "map_of rs' n = Some r'" for n r'
    using after [OF that] by auto
  show ?thesis
  proof (rule network_invI)
    show "distinct (map fst rs')" using network_inv_distinct [OF inv] keys by simp
    show "router_inv n r'" if "map_of rs' n = Some r'" for n r'
    proof -
      from after [OF that] obtain r q where
        "map_of rs n = Some r" "\<forall>msg\<in>set q. snd msg \<in> set (neighbours r)"
        "fst (threaded (map fst rs) (r\<lparr>queue := q\<rparr>)) = None"
        "r' = snd (threaded (map fst rs) (r\<lparr>queue := q\<rparr>))"
        by blast
      with threaded_router_inv [OF network_inv_router [OF inv this(1)] this(2,3)]
      show ?thesis by simp
    qed
    show "set (neighbours r') \<subseteq> dom (map_of rs')" if "map_of rs' n = Some r'" for n r'
    proof -
      from nb [OF that] obtain r where "map_of rs n = Some r" "neighbours r' = neighbours r"
        by blast
      with network_inv_neighbours [OF inv this(1)] show ?thesis by (simp add: dm)
    qed
    show "links_symmetric (map_of rs')"
      unfolding links_symmetric_def
    proof (intro allI impI)
      fix n k r1 r2
      assume a: "map_of rs' n = Some r1" and b: "map_of rs' k = Some r2"
      from nb [OF a] obtain r1' where r1: "map_of rs n = Some r1'" "neighbours r1 = neighbours r1'"
        by blast
      from nb [OF b] obtain r2' where r2: "map_of rs k = Some r2'" "neighbours r2 = neighbours r2'"
        by blast
      from network_inv_symmetric [OF inv] r1(1) r2(1)
      have "count_list (neighbours r1') k = count_list (neighbours r2') n"
        unfolding links_symmetric_def by blast
      with r1(2) r2(2) show "count_list (neighbours r1) k = count_list (neighbours r2) n"
        by simp
    qed
  qed
qed


lemma run_inv:
  "network_inv rs \<Longrightarrow> \<forall>sched\<in>set scheds. arrival_order sched \<Longrightarrow>
     run scheds rs = Inr rs' \<Longrightarrow> network_inv rs' \<and> map fst rs' = map fst rs"
proof (induction scheds arbitrary: rs)
  case Nil
  then show ?case by simp
next
  case (Cons sched scheds)
  from Cons.prems(3) obtain rs1 where
    s: "round_step sched rs = Inr rs1" and r: "run scheds rs1 = Inr rs'"
    by (auto split: sum.splits)
  from Cons.prems(2) have o: "arrival_order sched" and os: "\<forall>s\<in>set scheds. arrival_order s"
    by simp_all
  from Cons.IH [OF round_step_inv [OF Cons.prems(1) o s] os r] round_step_keys [OF s]
  show ?case by simp
qed

lemma simulate_inv:
  assumes "simulate nms es scheds = Inr rs" and "\<forall>sched\<in>set scheds. arrival_order sched"
  shows "network_inv rs" and "dom (map_of rs) = set nms"
proof -
  from assms(1) obtain rs0 where
    p: "input_parser nms es = Inr rs0" and r: "run scheds rs0 = Inr rs"
    by (auto simp: simulate_def split: sum.splits)
  from run_inv [OF input_parser_inv(1) [OF p] assms(2) r] show "network_inv rs" by simp
  from run_inv [OF input_parser_inv(1) [OF p] assms(2) r]
  have "map fst rs = map fst rs0" by simp
  then have "dom (map_of rs) = dom (map_of rs0)"
    by (simp add: dom_map_of_conv_image_fst flip: set_map)
  with input_parser_inv(2) [OF p] show "dom (map_of rs) = set nms" by simp
qed

section \<open>Schedulers and the simulation\<close>

lemma arrival_order_id: "arrival_order (\<lambda>n q. q)"
  by (simp add: arrival_order_def)

lemma arrival_order_single: "arrival_order sched \<Longrightarrow> sched n [a] = [a]"
  unfolding arrival_order_def by (simp flip: mset_single_iff)

lemma mset_pair_cases:
  assumes "mset xs = {#a, b#}"
  shows "xs = [a, b] \<or> xs = [b, a]"
proof (cases xs)
  case Nil
  with assms show ?thesis by simp
next
  case (Cons x ys)
  with assms have "add_mset x (mset ys) = add_mset a {#b#}" by simp
  then have "x = a \<and> mset ys = {#b#} \<or> x = b \<and> mset ys = {#a#}"
    by (auto simp: add_eq_conv_ex)
  with Cons show ?thesis by (auto simp: mset_single_iff)
qed

lemma arrival_order_pair:
  assumes "arrival_order sched"
  shows "sched n [a, b] = (if first_wins sched n a b then [a, b] else [b, a])"
proof -
  from assms have "mset (sched n [a, b]) = {#a, b#}"
    unfolding arrival_order_def by simp
  from mset_pair_cases [OF this] show ?thesis by (auto simp: first_wins_def)
qed

lemma run_append:
  "run (xs @ ys) rs = (case run xs rs of Inl s \<Rightarrow> Inl s | Inr rs1 \<Rightarrow> run ys rs1)"
  by (induction xs arbitrary: rs) (auto split: sum.splits)

lemma round_step_router:
  assumes step: "round_step sched rs = Inr rs'" and r: "map_of rs n = Some r"
  shows "\<exists>q. fst (threaded (map fst rs) (r\<lparr>queue := q\<rparr>)) = None \<and>
           map_of rs' n = Some (snd (threaded (map fst rs) (r\<lparr>queue := q\<rparr>)))"
proof -
  from step obtain rs1 where
    s: "send_all (map fst rs) rs = Inr rs1" and
    c: "compute_all sched (map fst rs) rs1 = Inr rs'"
    by (auto simp: round_step_def split: sum.splits)
  from send_all_ext [OF queues_extended_refl s] r obtain q where
    q: "map_of rs1 n = Some (r\<lparr>queue := queue r @ q\<rparr>)"
    unfolding queues_extended_def by blast
  from compute_all_Inr [OF c] q have
    "fst (threaded (map fst rs) (r\<lparr>queue := sched n (queue r @ q)\<rparr>)) = None"
    "map_of rs' n = Some (snd (threaded (map fst rs) (r\<lparr>queue := sched n (queue r @ q)\<rparr>)))"
    by fastforce+
  then show ?thesis by blast
qed

lemma round_step_self:
  assumes "round_step sched rs = Inr rs'"
    and "\<forall>n r. map_of rs n = Some r \<longrightarrow> table r n = Tup (Fin 0) ''None''"
    and "map_of rs' n = Some r'"
  shows "table r' n = Tup (Fin 0) ''None''"
proof -
  from round_step_keys [OF assms(1)] have "dom (map_of rs') = dom (map_of rs)"
    by (simp add: dom_map_of_conv_image_fst flip: set_map)
  with assms(3) obtain r where r: "map_of rs n = Some r" by (metis domD domI)
  from round_step_router [OF assms(1) r] assms(3) obtain q where
    "r' = snd (threaded (map fst rs) (r\<lparr>queue := q\<rparr>))" by auto
  moreover from assms(2) r have "table r n = Tup (Fin 0) ''None''" by blast
  ultimately show ?thesis by (simp add: threaded_Tup_iff)
qed

lemma run_self:
  "run scheds rs = Inr rs' \<Longrightarrow>
     \<forall>n r. map_of rs n = Some r \<longrightarrow> table r n = Tup (Fin 0) ''None'' \<Longrightarrow>
     map_of rs' n = Some r' \<Longrightarrow> table r' n = Tup (Fin 0) ''None''"
proof (induction scheds arbitrary: rs)
  case Nil
  then show ?case by simp
next
  case (Cons sched scheds)
  from Cons.prems(1) obtain rs1 where
    s: "round_step sched rs = Inr rs1" and r: "run scheds rs1 = Inr rs'"
    by (auto split: sum.splits)
  have "\<forall>n r. map_of rs1 n = Some r \<longrightarrow> table r n = Tup (Fin 0) ''None''"
    using round_step_self [OF s Cons.prems(2)] by blast
  from Cons.IH [OF r this Cons.prems(3)] show ?case .
qed

lemma entry_atD:
  "entry_at res n d = Some e \<Longrightarrow> \<exists>rs r. res = Inr rs \<and> map_of rs n = Some r \<and> e = table r d"
  by (auto simp: entry_at_def split: sum.splits option.splits)

lemma neighbours_atD:
  "neighbours_at res n = Some ns \<Longrightarrow>
     \<exists>rs r. res = Inr rs \<and> map_of rs n = Some r \<and> ns = neighbours r"
  by (auto simp: neighbours_at_def split: sum.splits option.splits)

lemma simulate_Inr:
  "simulate nms es scheds = Inr rs \<Longrightarrow>
     \<exists>rs0. input_parser nms es = Inr rs0 \<and> run scheds rs0 = Inr rs"
  by (auto simp: simulate_def split: sum.splits)

lemmas sim_defs = simulate_def entry_at_def neighbours_at_def input_parser_def make_routers_def
  add_edge_def link_def Router_init_def default_entry_def round_step_def add_to_queue_def
  threaded_eq relax_entry_def Let_def float_limit_def

section \<open>The simulation completes on valid input\<close>

lemma costs_inv_init: "costs_inv (Router_init n)"
  by (simp add: costs_inv_def Router_init_def default_entry_def)

lemma costs_inv_linked:
  "costs_inv r \<Longrightarrow> 0 < c \<Longrightarrow> c < float_limit \<Longrightarrow> costs_inv (linked b c r)"
  unfolding costs_inv_def linked_def by auto

lemma add_edges_costs_inv:
  "network_inv rs \<Longrightarrow> \<forall>n r. map_of rs n = Some r \<longrightarrow> costs_inv r \<Longrightarrow>
   \<forall>e\<in>set es. 0 < snd (snd e) \<and> snd (snd e) < float_limit \<Longrightarrow>
   add_edges es rs = Inr rs' \<Longrightarrow> map_of rs' n = Some r \<Longrightarrow> costs_inv r"
proof (induction es arbitrary: rs)
  case Nil
  then show ?case by simp
next
  case (Cons e es)
  obtain s d c where e: "e = (s, d, c)" by (cases e)
  from Cons.prems(4) e obtain rs1 where
    a: "add_edge (s, d, c) rs = Inr rs1" and r: "add_edges es rs1 = Inr rs'"
    by (auto split: sum.splits)
  from Cons.prems(3) e have c: "0 < c" "c < float_limit" by simp_all
  from add_edge_Inr [OF Cons.prems(1) a] obtain r1 r2 where
    r1: "map_of rs s = Some r1" and r2: "map_of rs d = Some r2" and
    rs1: "rs1 = AList.update d (linked s c r2) (AList.update s (linked d c r1) rs)"
    by blast
  have "\<forall>n r. map_of rs1 n = Some r \<longrightarrow> costs_inv r"
    using Cons.prems(2) r1 r2 c
    by (auto simp: rs1 update_conv' costs_inv_linked split: if_splits)
  moreover from add_edge_inv [OF Cons.prems(1) a] have "network_inv rs1" by simp
  moreover from Cons.prems(3) have
    "\<forall>e\<in>set es. 0 < snd (snd e) \<and> snd (snd e) < float_limit" by simp
  ultimately show ?case using Cons.IH r Cons.prems(5) by blast
qed

lemma input_parser_valid:
  assumes "\<forall>e\<in>set es. valid_edge nms e"
  shows "\<exists>rs. input_parser nms es = Inr rs \<and>
           (\<forall>n r. map_of rs n = Some r \<longrightarrow> costs_inv r)"
proof -
  from assms have "\<forall>e\<in>set es. fst e \<noteq> fst (snd e) \<and> fst e \<in> dom (map_of (make_routers nms)) \<and>
      fst (snd e) \<in> dom (map_of (make_routers nms))"
    by (simp add: valid_edge_def make_routers_dom)
  with add_edges_ok_iff [OF network_inv_make_routers, of es nms] obtain rs where
    a: "add_edges es (make_routers nms) = Inr rs" by blast
  have i: "\<forall>n r. map_of (make_routers nms) n = Some r \<longrightarrow> costs_inv r"
    by (auto simp: make_routers_map_of costs_inv_init split: if_splits)
  from assms have c: "\<forall>e\<in>set es. 0 < snd (snd e) \<and> snd (snd e) < float_limit"
    by (simp add: valid_edge_def)
  from add_edges_costs_inv [OF network_inv_make_routers i c a] a show ?thesis
    by (auto simp: input_parser_def)
qed

lemma add_to_queue_loop_len:
  assumes "set ns \<subseteq> dom (map_of rs1)"
  shows "\<exists>rs2. add_to_queue_loop t nm ns rs1 = Inr rs2 \<and>
           (\<forall>n r. map_of rs1 n = Some r \<longrightarrow>
              (\<exists>r'. map_of rs2 n = Some r' \<and>
                 length (queue r') = length (queue r) + count_list ns n))"
  using assms
proof (induction ns arbitrary: rs1)
  case Nil
  then show ?case by simp
next
  case (Cons k ns)
  from Cons.prems obtain rk where rk: "map_of rs1 k = Some rk" by auto
  let ?rs = "AList.update k (rk\<lparr>queue := queue rk @ [(t, nm)]\<rparr>) rs1"
  from Cons.prems have "set ns \<subseteq> dom (map_of ?rs)"
    by (auto simp: update_conv')
  from Cons.IH [OF this] obtain rs2 where
    l: "add_to_queue_loop t nm ns ?rs = Inr rs2" and
    q: "\<forall>n r. map_of ?rs n = Some r \<longrightarrow>
          (\<exists>r'. map_of rs2 n = Some r' \<and> length (queue r') = length (queue r) + count_list ns n)"
    by blast
  have "\<exists>r'. map_of rs2 n = Some r' \<and>
          length (queue r') = length (queue r) + count_list (k # ns) n"
    if n: "map_of rs1 n = Some r" for n r
  proof (cases "n = k")
    case True
    with n rk have "map_of ?rs n = Some (r\<lparr>queue := queue r @ [(t, nm)]\<rparr>)"
      by (simp add: update_conv')
    with q True show ?thesis by fastforce
  next
    case False
    with n have "map_of ?rs n = Some r" by (simp add: update_conv')
    with q False show ?thesis by fastforce
  qed
  with l rk show ?case by simp
qed

lemma sum_count_keys:
  assumes "distinct ks" and "set xs \<subseteq> set ks"
  shows "(\<Sum>k\<leftarrow>ks. count_list xs k) = length xs"
proof -
  from assms(1) have "(\<Sum>k\<leftarrow>ks. count_list xs k) = sum (count_list xs) (set ks)"
    by (rule sum_list_distinct_conv_sum_set)
  also from assms(2) have "\<dots> = length xs" by (simp add: sum_count_set)
  finally show ?thesis .
qed

lemma queues_extended_same:
  assumes "queues_extended rs rs1" and "map_of rs1 n = Some r1"
  shows "\<exists>r. map_of rs n = Some r \<and> neighbours r1 = neighbours r \<and> table r1 = table r"
proof -
  from assms(2) queues_extended_dom [OF assms(1)] obtain r where r: "map_of rs n = Some r"
    by (metis domD domI)
  with assms show ?thesis unfolding queues_extended_def by fastforce
qed

lemma add_to_queue_len:
  assumes ext: "queues_extended rs rs1" and nm: "map_of rs nm = Some rm"
    and nb: "set (neighbours rm) \<subseteq> dom (map_of rs)"
  shows "\<exists>rs2. add_to_queue nm rs1 = Inr rs2 \<and>
           (\<forall>n r. map_of rs1 n = Some r \<longrightarrow>
              (\<exists>r'. map_of rs2 n = Some r' \<and>
                 length (queue r') = length (queue r) + count_list (neighbours rm) n))"
proof -
  from nm queues_extended_dom [OF ext] obtain r1 where r1: "map_of rs1 nm = Some r1"
    by (metis domD domI)
  from queues_extended_same [OF ext r1] nm have same: "neighbours r1 = neighbours rm"
    by simp
  from nb queues_extended_dom [OF ext] have "set (neighbours rm) \<subseteq> dom (map_of rs1)"
    by simp
  from add_to_queue_loop_len [OF this, of "table r1" nm] r1 same show ?thesis
    by (simp add: add_to_queue_def)
qed

lemma send_all_len:
  assumes "queues_extended rs rs1"
    and "\<forall>nm\<in>set nms. \<exists>rm. map_of rs nm = Some rm \<and> set (neighbours rm) \<subseteq> dom (map_of rs)"
  shows "\<exists>rs2. send_all nms rs1 = Inr rs2 \<and>
           (\<forall>n r. map_of rs1 n = Some r \<longrightarrow>
              (\<exists>r'. map_of rs2 n = Some r' \<and>
                 length (queue r') = length (queue r) +
                   (\<Sum>nm\<leftarrow>nms. count_list (neighbours (the (map_of rs nm))) n)))"
  using assms
proof (induction nms arbitrary: rs1)
  case Nil
  then show ?case by simp
next
  case (Cons nm nms)
  from Cons.prems(2) obtain rm where
    rm: "map_of rs nm = Some rm" and nb: "set (neighbours rm) \<subseteq> dom (map_of rs)"
    by auto
  from add_to_queue_len [OF Cons.prems(1) rm nb] obtain rs3 where
    a: "add_to_queue nm rs1 = Inr rs3" and
    l3: "\<forall>n r. map_of rs1 n = Some r \<longrightarrow>
           (\<exists>r'. map_of rs3 n = Some r' \<and>
              length (queue r') = length (queue r) + count_list (neighbours rm) n)"
    by blast
  from Cons.prems(2) have rest: "\<forall>nm\<in>set nms. \<exists>rm. map_of rs nm = Some rm \<and>
      set (neighbours rm) \<subseteq> dom (map_of rs)" by simp
  from Cons.IH [OF add_to_queue_ext [OF Cons.prems(1) a] rest] obtain rs2 where
    s: "send_all nms rs3 = Inr rs2" and
    l2: "\<forall>n r. map_of rs3 n = Some r \<longrightarrow>
           (\<exists>r'. map_of rs2 n = Some r' \<and>
              length (queue r') = length (queue r) +
                (\<Sum>nm\<leftarrow>nms. count_list (neighbours (the (map_of rs nm))) n))"
    by blast
  have "\<exists>r'. map_of rs2 n = Some r' \<and>
          length (queue r') = length (queue r) +
            (\<Sum>k\<leftarrow>nm # nms. count_list (neighbours (the (map_of rs k))) n)"
    if n: "map_of rs1 n = Some r" for n r
  proof -
    from l3 n obtain r3 where
      r3: "map_of rs3 n = Some r3"
        "length (queue r3) = length (queue r) + count_list (neighbours rm) n"
      by blast
    from l2 r3(1) obtain r2 where
      r2: "map_of rs2 n = Some r2"
        "length (queue r2) = length (queue r3) +
           (\<Sum>nm\<leftarrow>nms. count_list (neighbours (the (map_of rs nm))) n)"
      by blast
    from r2 r3(2) rm show ?thesis by simp
  qed
  with a s show ?case by simp
qed

lemma incoming_count:
  assumes inv: "network_inv rs" and r: "map_of rs n = Some r"
  shows "(\<Sum>nm\<leftarrow>map fst rs. count_list (neighbours (the (map_of rs nm))) n) =
           length (neighbours r)"
proof -
  have "count_list (neighbours (the (map_of rs nm))) n = count_list (neighbours r) nm"
    if "nm \<in> set (map fst rs)" for nm
  proof -
    from that obtain rm where rm: "map_of rs nm = Some rm"
      by (metis domD dom_map_of_conv_image_fst set_map)
    from network_inv_symmetric [OF inv] rm r
    have "count_list (neighbours rm) n = count_list (neighbours r) nm"
      unfolding links_symmetric_def by blast
    with rm show ?thesis by simp
  qed
  then have "(\<Sum>nm\<leftarrow>map fst rs. count_list (neighbours (the (map_of rs nm))) n) =
      (\<Sum>nm\<leftarrow>map fst rs. count_list (neighbours r) nm)"
    by (metis (mono_tags, lifting) map_eq_conv)
  also have "\<dots> = length (neighbours r)"
  proof (rule sum_count_keys)
    show "distinct (map fst rs)" by (rule network_inv_distinct [OF inv])
    from network_inv_neighbours [OF inv r]
    show "set (neighbours r) \<subseteq> set (map fst rs)"
      by (simp add: dom_map_of_conv_image_fst)
  qed
  finally show ?thesis .
qed

lemma compute_all_ok:
  assumes "\<forall>p\<in>set rs1. length (queue (snd p)) = length (neighbours (snd p)) \<and>
      fst (threaded ks ((snd p)\<lparr>queue := sched (fst p) (queue (snd p))\<rparr>)) = None"
  shows "\<exists>rs'. compute_all sched ks rs1 = Inr rs'"
  using assms
proof (induction rs1)
  case Nil
  then show ?case by simp
next
  case (Cons p rs1)
  obtain n r where p: "p = (n, r)" by (cases p)
  from Cons.prems p have len: "length (queue r) = length (neighbours r)" and
    ok: "fst (threaded ks (r\<lparr>queue := sched n (queue r)\<rparr>)) = None"
    by simp_all
  from ok obtain r' where t: "threaded ks (r\<lparr>queue := sched n (queue r)\<rparr>) = (None, r')"
    by (cases "threaded ks (r\<lparr>queue := sched n (queue r)\<rparr>)") simp
  from Cons.IH Cons.prems obtain rs' where "compute_all sched ks rs1 = Inr rs'"
    by auto
  with p len t show ?case by simp
qed

lemma cost_add_nonneg:
  "nonneg a \<Longrightarrow> nonneg b \<Longrightarrow> cost_add a b = Inr v \<Longrightarrow> nonneg v"
  by (cases a; cases b) (auto split: if_splits)

lemma improve_nonneg:
  "nonneg c \<Longrightarrow> nonneg (cost_of (vec d)) \<Longrightarrow> nonneg (cost_of (own s)) \<Longrightarrow>
     nonneg (improve own vec s d c)"
  by (auto simp: improve_def split: sum.splits dest: cost_add_nonneg)

lemma fold_improve_all_nonneg:
  "nonneg c \<Longrightarrow>
   \<forall>msg\<in>set q. nonneg (cost_of (own (snd msg))) \<and> (\<forall>d. nonneg (cost_of (fst msg d))) \<Longrightarrow>
   nonneg (fold (improve_all own ks k) q c)"
  by (induction q arbitrary: c) (auto simp: improve_all_def improve_nonneg)

lemma relax_nonneg:
  assumes "relax own ks q tc = Inr tc'" and "\<forall>d. nonneg (cost_of (tc d))"
    and "\<forall>msg\<in>set q. nonneg (cost_of (own (snd msg))) \<and> (\<forall>d. nonneg (cost_of (fst msg d)))"
  shows "nonneg (cost_of (tc' k))"
  using relax_cost [OF assms(1), of k] fold_improve_all_nonneg [OF _ assms(3)] assms(2)
  by simp

lemma cost_le_Fin: "cost_le c (Fin x) \<Longrightarrow> \<exists>y. c = Fin y \<and> y \<le> x"
  by (cases c) auto

lemma relax_completes:
  assumes t: "table_inv n N own" and c: "\<forall>d. nonneg (cost_of (own d))"
    and f: "\<forall>m\<in>N. \<exists>x. cost_of (own m) = Fin x \<and> x < float_limit"
    and q: "\<forall>msg\<in>set q. snd msg \<in> N \<and> (\<forall>d. nonneg (cost_of (fst msg d)))"
  shows "\<exists>tc. relax own ks q own = Inr tc"
proof -
  have "passes own vec s d own"
    if s: "s \<in> N" and v: "\<forall>d. nonneg (cost_of (vec d))" for vec s d
  proof -
    from f s obtain x where x: "cost_of (own s) = Fin x" "x < float_limit" by blast
    from c x(1) have x0: "0 \<le> x" by (metis nonneg.simps(1))
    from v have vd: "nonneg (cost_of (vec d))" by blast
    obtain val where val: "cost_add (cost_of (vec d)) (cost_of (own s)) = Inr val"
      using x x0 by (cases "cost_of (vec d)") auto
    from cost_add_nonneg [OF vd _ val] c have nv: "nonneg val" by simp
    have "\<not> cost_lt val c'" if "own d = Tup c' h" for c' h
    proof -
      from t that have "d = n" by (auto simp: table_inv_def)
      with t that have "c' = Fin 0" by (auto simp: table_inv_def)
      with nv show ?thesis by (cases val) auto
    qed
    with val show ?thesis unfolding passes_def by blast
  qed
  with q have "\<forall>m\<in>set q. \<forall>d\<in>set ks. passes own (fst m) (snd m) d own" by blast
  then show ?thesis by (simp only: relax_ok_iff)
qed

lemma threaded_completes:
  assumes inv: "router_inv n r" and c: "costs_inv r"
    and q: "\<forall>msg\<in>set q. snd msg \<in> set (neighbours r) \<and> (\<forall>d. nonneg (cost_of (fst msg d)))"
  shows "fst (threaded ks (r\<lparr>queue := q\<rparr>)) = None \<and>
         costs_inv (snd (threaded ks (r\<lparr>queue := q\<rparr>)))"
proof -
  from inv have t: "table_inv n (set (neighbours r)) (table r)" by (simp add: router_inv_def)
  from c have nn: "\<forall>d. nonneg (cost_of (table r d))" and
    f: "\<forall>m\<in>set (neighbours r). \<exists>x. cost_of (table r m) = Fin x \<and> x < float_limit"
    by (simp_all add: costs_inv_def)
  from relax_completes [OF t nn f q] obtain tc where
    tc: "relax (table r) ks q (table r) = Inr tc" by blast
  then have ok: "fst (threaded ks (r\<lparr>queue := q\<rparr>)) = None"
    and tab: "table (snd (threaded ks (r\<lparr>queue := q\<rparr>))) = tc"
    by (simp_all add: threaded_eq)
  have own: "\<forall>msg\<in>set q. nonneg (cost_of (table r (snd msg))) \<and>
      (\<forall>d. nonneg (cost_of (fst msg d)))"
    using q nn by blast
  have n1: "nonneg (cost_of (tc d))" for d
    by (rule relax_nonneg [OF tc nn own])
  have n2: "\<exists>x. cost_of (tc m) = Fin x \<and> x < float_limit"
    if "m \<in> set (neighbours r)" for m
  proof -
    from f that obtain x where x: "cost_of (table r m) = Fin x" "x < float_limit" by blast
    from relax_le [OF tc, of m] x(1) have "cost_le (cost_of (tc m)) (Fin x)" by simp
    from cost_le_Fin [OF this] x(2) show ?thesis by auto
  qed
  from n1 n2 tab have "costs_inv (snd (threaded ks (r\<lparr>queue := q\<rparr>)))"
    by (simp add: costs_inv_def)
  with ok show ?thesis by simp
qed

lemma sent_from_nonneg:
  assumes "\<forall>n r. map_of rs n = Some r \<longrightarrow> costs_inv r" and "sent_from rs n msg"
  shows "nonneg (cost_of (fst msg d))"
  using assms unfolding sent_from_def costs_inv_def by auto

lemma round_step_completes:
  assumes inv: "network_inv rs" and c: "\<forall>n r. map_of rs n = Some r \<longrightarrow> costs_inv r"
    and ord: "arrival_order sched"
  shows "\<exists>rs'. round_step sched rs = Inr rs' \<and>
           (\<forall>n r. map_of rs' n = Some r \<longrightarrow> costs_inv r)"
proof -
  let ?ks = "map fst rs"
  have "\<forall>nm\<in>set ?ks. \<exists>rm. map_of rs nm = Some rm \<and> set (neighbours rm) \<subseteq> dom (map_of rs)"
  proof
    fix nm assume "nm \<in> set ?ks"
    then obtain rm where rm: "map_of rs nm = Some rm"
      by (metis domD dom_map_of_conv_image_fst set_map)
    with network_inv_neighbours [OF inv rm]
    show "\<exists>rm. map_of rs nm = Some rm \<and> set (neighbours rm) \<subseteq> dom (map_of rs)" by blast
  qed
  from send_all_len [OF queues_extended_refl this] obtain rs1 where
    s: "send_all ?ks rs = Inr rs1" and
    len: "\<forall>n r. map_of rs n = Some r \<longrightarrow>
           (\<exists>r'. map_of rs1 n = Some r' \<and>
              length (queue r') = length (queue r) +
                (\<Sum>nm\<leftarrow>?ks. count_list (neighbours (the (map_of rs nm))) n))"
    by blast
  have ext: "queues_extended rs rs1" by (rule send_all_ext [OF queues_extended_refl s])
  then have keys1: "map fst rs1 = ?ks" by (simp add: queues_extended_def)
  have shape: "\<exists>r q. map_of rs n = Some r \<and> r1 = r\<lparr>queue := q\<rparr> \<and>
      length q = length (neighbours r) \<and> (\<forall>msg\<in>set q. sent_from rs n msg)"
    if r1: "map_of rs1 n = Some r1" for n r1
  proof -
    from r1 queues_extended_dom [OF ext] obtain r where r: "map_of rs n = Some r"
      by (metis domD domI)
    from network_inv_router [OF inv r] have e: "queue r = []" by (simp add: router_inv_def)
    from ext r r1 e obtain q where
      q: "r1 = r\<lparr>queue := q\<rparr>" "\<forall>msg\<in>set q. sent_from rs n msg"
      unfolding queues_extended_def by fastforce
    from len r r1 e have "length (queue r1) =
        (\<Sum>nm\<leftarrow>?ks. count_list (neighbours (the (map_of rs nm))) n)" by fastforce
    with incoming_count [OF inv r] q(1) have "length q = length (neighbours r)" by simp
    with r q show ?thesis by blast
  qed
  have thread: "fst (threaded ?ks (r1\<lparr>queue := sched n (queue r1)\<rparr>)) = None \<and>
      costs_inv (snd (threaded ?ks (r1\<lparr>queue := sched n (queue r1)\<rparr>))) \<and>
      length (queue r1) = length (neighbours r1)"
    if r1: "map_of rs1 n = Some r1" for n r1
  proof -
    from shape [OF r1] obtain r q where
      r: "map_of rs n = Some r" and q: "r1 = r\<lparr>queue := q\<rparr>" and
      l: "length q = length (neighbours r)" and sf: "\<forall>msg\<in>set q. sent_from rs n msg"
      by blast
    have "\<forall>msg\<in>set (sched n q). snd msg \<in> set (neighbours r) \<and>
        (\<forall>d. nonneg (cost_of (fst msg d)))"
      using sf sent_from_neighbour [OF inv r] sent_from_nonneg [OF c]
        arrival_order_set [OF ord, of n q] by blast
    from threaded_completes [OF network_inv_router [OF inv r] _ this, of ?ks] c r q l
    show ?thesis by simp
  qed
  have d1: "distinct (map fst rs1)" using network_inv_distinct [OF inv] keys1 by simp
  have "\<forall>p\<in>set rs1. length (queue (snd p)) = length (neighbours (snd p)) \<and>
      fst (threaded ?ks ((snd p)\<lparr>queue := sched (fst p) (queue (snd p))\<rparr>)) = None"
  proof
    fix p assume "p \<in> set rs1"
    with d1 have "map_of rs1 (fst p) = Some (snd p)" by simp
    from thread [OF this]
    show "length (queue (snd p)) = length (neighbours (snd p)) \<and>
      fst (threaded ?ks ((snd p)\<lparr>queue := sched (fst p) (queue (snd p))\<rparr>)) = None"
      by simp
  qed
  from compute_all_ok [OF this] obtain rs' where
    ca: "compute_all sched ?ks rs1 = Inr rs'" by blast
  with s have step: "round_step sched rs = Inr rs'" by (simp add: round_step_def)
  have "costs_inv r'" if r': "map_of rs' n = Some r'" for n r'
  proof -
    from compute_all_Inr [OF ca] have k: "map fst rs' = map fst rs1" by simp
    then have "dom (map_of rs') = dom (map_of rs1)"
      by (simp add: dom_map_of_conv_image_fst flip: set_map)
    with r' obtain r1 where r1: "map_of rs1 n = Some r1" by (metis domD domI)
    from compute_all_Inr [OF ca] r1 r'
    have "r' = snd (threaded ?ks (r1\<lparr>queue := sched n (queue r1)\<rparr>))" by fastforce
    with thread [OF r1] show ?thesis by simp
  qed
  with step show ?thesis by blast
qed

lemma run_completes:
  "network_inv rs \<Longrightarrow> \<forall>n r. map_of rs n = Some r \<longrightarrow> costs_inv r \<Longrightarrow>
   \<forall>sched\<in>set scheds. arrival_order sched \<Longrightarrow> \<exists>rs'. run scheds rs = Inr rs'"
proof (induction scheds arbitrary: rs)
  case Nil
  then show ?case by simp
next
  case (Cons sched scheds)
  from Cons.prems(3) have o: "arrival_order sched" and os: "\<forall>s\<in>set scheds. arrival_order s"
    by simp_all
  from round_step_completes [OF Cons.prems(1,2) o] obtain rs1 where
    s: "round_step sched rs = Inr rs1" and c: "\<forall>n r. map_of rs1 n = Some r \<longrightarrow> costs_inv r"
    by blast
  from Cons.IH [OF round_step_inv [OF Cons.prems(1) o s] c os] s show ?case by simp
qed

lemma simulate_completes:
  assumes "\<forall>e\<in>set edges. valid_edge routerNames e"
    and "\<forall>sched\<in>set scheds. arrival_order sched"
  shows "\<exists>rs. simulate routerNames edges scheds = Inr rs"
proof -
  from input_parser_valid [OF assms(1)] obtain rs0 where
    p: "input_parser routerNames edges = Inr rs0" and
    c: "\<forall>n r. map_of rs0 n = Some r \<longrightarrow> costs_inv r"
    by blast
  from run_completes [OF input_parser_inv(1) [OF p] c assms(2)] p show ?thesis
    by (simp add: simulate_def)
qed

section \<open>Claims about the parser and the rounds\<close>

text \<open>
  C2. After the parser and after every round, the entry of every router for itself is
  \<open>(0, 'None')\<close>; no thread, whether it completes or raises, and whatever its queue
  holds, changes an entry that is a tuple; and with edges of positive cost (below the
  first int that has no double) between different routers of the list, every router
  has that entry after every round, whatever the order of arrival of the messages.
\<close>

theorem self_entry_invariant:
  "(entry_at (simulate routerNames edges scheds) n n = Some e \<longrightarrow> e = Tup (Fin 0) ''None'') \<and>
   ((table (snd (threaded ks router)) k = Tup c h) = (table router k = Tup c h)) \<and>
   ((\<forall>e\<in>set edges. valid_edge routerNames e) \<longrightarrow>
    (\<forall>sched\<in>set scheds. arrival_order sched) \<longrightarrow> n \<in> set routerNames \<longrightarrow>
      entry_at (simulate routerNames edges scheds) n n = Some (Tup (Fin 0) ''None''))"
proof -
  have self: "table r n = Tup (Fin 0) ''None''"
    if sim: "simulate routerNames edges scheds = Inr rs" and r: "map_of rs n = Some r"
    for rs r
  proof -
    from simulate_Inr [OF sim] obtain rs0 where
      p: "input_parser routerNames edges = Inr rs0" and run: "run scheds rs0 = Inr rs"
      by blast
    have "\<forall>n r. map_of rs0 n = Some r \<longrightarrow> table r n = Tup (Fin 0) ''None''"
      using network_inv_router [OF input_parser_inv(1) [OF p]] router_inv_self by blast
    from run_self [OF run this r] show ?thesis .
  qed
  have one: "e = Tup (Fin 0) ''None''"
    if "entry_at (simulate routerNames edges scheds) n n = Some e"
    using entry_atD [OF that] self by blast
  have three: "entry_at (simulate routerNames edges scheds) n n = Some (Tup (Fin 0) ''None'')"
    if v: "\<forall>e\<in>set edges. valid_edge routerNames e"
      and o: "\<forall>sched\<in>set scheds. arrival_order sched" and n: "n \<in> set routerNames"
  proof -
    from simulate_completes [OF v o] obtain rs where
      sim: "simulate routerNames edges scheds = Inr rs" by blast
    from simulate_inv(2) [OF sim o] n obtain r where r: "map_of rs n = Some r"
      by (metis domD)
    from self [OF sim r] sim r show ?thesis by (simp add: entry_at_def)
  qed
  from one three show ?thesis by (simp add: threaded_Tup_iff)
qed

theorem self_entry_invariant_witness:
  "entry_at (simulate keysABCD
       [(''A'', ''B'', 1), (''A'', ''C'', 1), (''B'', ''D'', 1), (''C'', ''D'', 1)]
       [\<lambda>n q. q, \<lambda>n q. rev q]) ''A'' ''A'' = Some (Tup (Fin 0) ''None'') \<and>
   (table (snd (threaded keysABCD (routerA [(tableB, ''B'')]))) ''A'' = Tup (Fin 0) ''None'') =
     (table (routerA [(tableB, ''B'')]) ''A'' = Tup (Fin 0) ''None'') \<and>
   valid_edge keysABCD (''A'', ''B'', 1) \<and> valid_edge keysABCD (''A'', ''C'', 1) \<and>
   valid_edge keysABCD (''B'', ''D'', 1) \<and> valid_edge keysABCD (''C'', ''D'', 1) \<and>
   arrival_order (\<lambda>n q. q) \<and> arrival_order (\<lambda>n q. rev q) \<and> ''D'' \<in> set keysABCD \<and>
   entry_at (simulate keysABCD
       [(''A'', ''B'', 1), (''A'', ''C'', 1), (''B'', ''D'', 1), (''C'', ''D'', 1)]
       [\<lambda>n q. q, \<lambda>n q. rev q]) ''D'' ''D'' = Some (Tup (Fin 0) ''None'')"
proof -
  let ?es = "[(''A'', ''B'', 1), (''A'', ''C'', 1), (''B'', ''D'', 1), (''C'', ''D'', 1)]"
  let ?ss = "[\<lambda>n q. q, \<lambda>n q. rev q] :: scheduler list"
  have h: "entry_at (simulate keysABCD ?es ?ss) ''A'' ''A'' = Some (Tup (Fin 0) ''None'')"
    by (simp add: sim_defs keysABCD_def)
  have v: "valid_edge keysABCD (''A'', ''B'', 1)" "valid_edge keysABCD (''A'', ''C'', 1)"
    "valid_edge keysABCD (''B'', ''D'', 1)" "valid_edge keysABCD (''C'', ''D'', 1)"
    by (simp_all add: valid_edge_def keysABCD_def float_limit_def)
  have o: "arrival_order (\<lambda>n q. q)" "arrival_order (\<lambda>n q. rev q)"
    by (simp_all add: arrival_order_def)
  have d: "''D'' \<in> set keysABCD" by (simp add: keysABCD_def)
  from v have vs: "\<forall>e\<in>set ?es. valid_edge keysABCD e" by simp
  from o have os: "\<forall>sched\<in>set ?ss. arrival_order sched" by simp
  from self_entry_invariant [of keysABCD ?es ?ss "''D''" "Tup (Fin 0) ''None''" keysABCD
      "routerA [(tableB, ''B'')]" "''A''" "Fin 0" "''None''"] vs os d
  have "entry_at (simulate keysABCD ?es ?ss) ''D'' ''D'' = Some (Tup (Fin 0) ''None'')"
    and "(table (snd (threaded keysABCD (routerA [(tableB, ''B'')]))) ''A'' =
           Tup (Fin 0) ''None'') =
         (table (routerA [(tableB, ''B'')]) ''A'' = Tup (Fin 0) ''None'')"
    by blast+
  with h v o d show ?thesis by blast
qed

text \<open>
  C3. The cost a router records for a destination after a round is at most the cost it
  recorded before that round; and a thread, whether it completes or raises, never
  leaves a higher cost than it found.
\<close>

theorem costs_never_increase:
  assumes "entry_at (simulate routerNames edges scheds) n d = Some e"
    and "entry_at (simulate routerNames edges (scheds @ [sched])) n d = Some e'"
  shows "cost_le (cost_of e') (cost_of e) \<and>
         cost_le (cost_of (table (snd (threaded ks router)) k)) (cost_of (table router k))"
proof -
  from entry_atD [OF assms(1)] obtain rs r where
    sim: "simulate routerNames edges scheds = Inr rs" and
    r: "map_of rs n = Some r" and e: "e = table r d"
    by blast
  from entry_atD [OF assms(2)] obtain rs' r' where
    sim': "simulate routerNames edges (scheds @ [sched]) = Inr rs'" and
    r': "map_of rs' n = Some r'" and e': "e' = table r' d"
    by blast
  from simulate_Inr [OF sim] obtain rs0 where
    p: "input_parser routerNames edges = Inr rs0" and run: "run scheds rs0 = Inr rs"
    by blast
  from simulate_Inr [OF sim'] p have "run (scheds @ [sched]) rs0 = Inr rs'" by auto
  with run have step: "round_step sched rs = Inr rs'"
    by (auto simp: run_append split: sum.splits)
  from round_step_router [OF step r] r' obtain q where
    "r' = snd (threaded (map fst rs) (r\<lparr>queue := q\<rparr>))" by auto
  with threaded_le [of "map fst rs" "r\<lparr>queue := q\<rparr>" d] e e'
  have "cost_le (cost_of e') (cost_of e)" by simp
  with threaded_le [of ks router k] show ?thesis by simp
qed

theorem costs_never_increase_witness:
  "entry_at (simulate keysABCD
       [(''A'', ''B'', 1), (''A'', ''C'', 1), (''B'', ''D'', 1), (''C'', ''D'', 1)] [])
       ''A'' ''D'' = Some (Lst Inf ''[no path]'') \<and>
   entry_at (simulate keysABCD
       [(''A'', ''B'', 1), (''A'', ''C'', 1), (''B'', ''D'', 1), (''C'', ''D'', 1)]
       ([] @ [\<lambda>n q. q])) ''A'' ''D'' = Some (Lst (Fin 2) ''B'') \<and>
   cost_le (cost_of (Lst (Fin 2) ''B'')) (cost_of (Lst Inf ''[no path]''))"
proof -
  have h0: "entry_at (simulate keysABCD
       [(''A'', ''B'', 1), (''A'', ''C'', 1), (''B'', ''D'', 1), (''C'', ''D'', 1)] [])
       ''A'' ''D'' = Some (Lst Inf ''[no path]'')"
    by (simp add: sim_defs keysABCD_def)
  have h1: "entry_at (simulate keysABCD
       [(''A'', ''B'', 1), (''A'', ''C'', 1), (''B'', ''D'', 1), (''C'', ''D'', 1)]
       ([] @ [\<lambda>n q. q])) ''A'' ''D'' = Some (Lst (Fin 2) ''B'')"
    by (simp add: sim_defs keysABCD_def)
  from costs_never_increase [OF h0 h1] h0 h1 show ?thesis by blast
qed

text \<open>
  C4, as stated, fails: in the line \<open>A-B-C\<close> with both edges of cost 1, \<open>B\<close> knows
  \<open>C\<close> from the parser on, so the first round already gives \<open>A\<close> the entry \<open>(2, B)\<close>
  for \<open>C\<close>.
\<close>

theorem line_round_one_counterexample:
  "arrival_order (\<lambda>n q. q) \<and>
   entry_at (simulate [''A'', ''B'', ''C''] [(''A'', ''B'', 1), (''B'', ''C'', 1)] [\<lambda>n q. q])
     ''A'' ''C'' = Some (Lst (Fin 2) ''B'')"
  by (simp add: sim_defs arrival_order_id)

text \<open>
  C4, amended. In the line \<open>A-B-C\<close> with both edges of cost 1, whatever the order of
  arrival of the messages: after the parser the entry of \<open>A\<close> for \<open>C\<close> is
  \<open>(inf, '[no path]')\<close>; after round 1, and after round 2, the entry of \<open>A\<close> for \<open>C\<close>
  is \<open>(2, B)\<close> and the entry of \<open>C\<close> for \<open>A\<close> is \<open>(2, B)\<close>.
\<close>

theorem line_scenario:
  assumes "arrival_order s1" and "arrival_order s2"
  shows "entry_at (simulate [''A'', ''B'', ''C''] [(''A'', ''B'', 1), (''B'', ''C'', 1)] [])
           ''A'' ''C'' = Some (Lst Inf ''[no path]'') \<and>
         entry_at (simulate [''A'', ''B'', ''C''] [(''A'', ''B'', 1), (''B'', ''C'', 1)] [s1])
           ''A'' ''C'' = Some (Lst (Fin 2) ''B'') \<and>
         entry_at (simulate [''A'', ''B'', ''C''] [(''A'', ''B'', 1), (''B'', ''C'', 1)] [s1])
           ''C'' ''A'' = Some (Lst (Fin 2) ''B'') \<and>
         entry_at (simulate [''A'', ''B'', ''C''] [(''A'', ''B'', 1), (''B'', ''C'', 1)] [s1, s2])
           ''A'' ''C'' = Some (Lst (Fin 2) ''B'') \<and>
         entry_at (simulate [''A'', ''B'', ''C''] [(''A'', ''B'', 1), (''B'', ''C'', 1)] [s1, s2])
           ''C'' ''A'' = Some (Lst (Fin 2) ''B'')"
  using assms
  by (simp add: sim_defs arrival_order_single arrival_order_pair)

theorem line_scenario_witness:
  "arrival_order (\<lambda>n q. q) \<and> arrival_order (\<lambda>n q. rev q) \<and>
   entry_at (simulate [''A'', ''B'', ''C''] [(''A'', ''B'', 1), (''B'', ''C'', 1)]
     [\<lambda>n q. q, \<lambda>n q. rev q]) ''A'' ''C'' = Some (Lst (Fin 2) ''B'') \<and>
   entry_at (simulate [''A'', ''B'', ''C''] [(''A'', ''B'', 1), (''B'', ''C'', 1)]
     [\<lambda>n q. q, \<lambda>n q. rev q]) ''C'' ''A'' = Some (Lst (Fin 2) ''B'')"
proof -
  have a: "arrival_order (\<lambda>n q. q)" by (rule arrival_order_id)
  have b: "arrival_order (\<lambda>n q. rev q)" by (simp add: arrival_order_def)
  from line_scenario [OF a b] a b show ?thesis by blast
qed




text \<open>
  C10. After the parser and any number of rounds, every entry of a router \<open>n\<close> for
  another destination that has a finite cost names one of the neighbours of \<open>n\<close> as
  next hop; the neighbours are router names other than \<open>n\<close>, so the next hop is
  neither \<open>n\<close> nor a name that is no router, and it is not the string \<open>None\<close> or
  \<open>[no path]\<close> unless a router bears that name.
\<close>

theorem next_hop_is_neighbour:
  assumes "\<forall>sched\<in>set scheds. arrival_order sched"
    and "entry_at (simulate routerNames edges scheds) n d = Some e"
    and "neighbours_at (simulate routerNames edges scheds) n = Some ns"
    and "d \<noteq> n" and "cost_of e = Fin x"
  shows "hop_of e \<in> set ns \<and> set ns \<subseteq> set routerNames - {n} \<and>
         (''None'' \<notin> set routerNames \<longrightarrow> hop_of e \<noteq> ''None'') \<and>
         (''[no path]'' \<notin> set routerNames \<longrightarrow> hop_of e \<noteq> ''[no path]'')"
proof -
  from entry_atD [OF assms(2)] obtain rs r where
    sim: "simulate routerNames edges scheds = Inr rs" and
    r: "map_of rs n = Some r" and e: "e = table r d"
    by blast
  from neighbours_atD [OF assms(3)] sim r have ns: "ns = neighbours r" by auto
  from simulate_inv [OF sim assms(1)] have
    inv: "network_inv rs" and dm: "dom (map_of rs) = set routerNames" by simp_all
  from network_inv_router [OF inv r]
  have t: "table_inv n (set (neighbours r)) (table r)"
    by (simp add: router_inv_def)
  from t assms(4,5) e have "hop_of e \<in> set (neighbours r)"
    unfolding table_inv_def by blast
  moreover from t have "n \<notin> set (neighbours r)"
    unfolding table_inv_def by blast
  moreover from network_inv_neighbours [OF inv r] dm
  have "set (neighbours r) \<subseteq> set routerNames" by simp
  ultimately show ?thesis using ns by auto
qed

theorem next_hop_is_neighbour_witness:
  "arrival_order (\<lambda>n q. q) \<and>
   entry_at (simulate keysABCD
       [(''A'', ''B'', 1), (''A'', ''C'', 1), (''B'', ''D'', 1), (''C'', ''D'', 1)]
       [\<lambda>n q. q]) ''A'' ''D'' = Some (Lst (Fin 2) ''B'') \<and>
   neighbours_at (simulate keysABCD
       [(''A'', ''B'', 1), (''A'', ''C'', 1), (''B'', ''D'', 1), (''C'', ''D'', 1)]
       [\<lambda>n q. q]) ''A'' = Some [''B'', ''C''] \<and>
   ''D'' \<noteq> ''A'' \<and> cost_of (Lst (Fin 2) ''B'') = Fin 2 \<and>
   hop_of (Lst (Fin 2) ''B'') \<in> set [''B'', ''C''] \<and>
   set [''B'', ''C''] \<subseteq> set keysABCD - {''A''} \<and>
   ''None'' \<notin> set keysABCD \<and> ''[no path]'' \<notin> set keysABCD \<and>
   hop_of (Lst (Fin 2) ''B'') \<noteq> ''None'' \<and> hop_of (Lst (Fin 2) ''B'') \<noteq> ''[no path]''"
proof -
  have a: "\<forall>sched\<in>set [\<lambda>n q. q]. arrival_order sched"
    by (simp add: arrival_order_id)
  have h: "entry_at (simulate keysABCD
       [(''A'', ''B'', 1), (''A'', ''C'', 1), (''B'', ''D'', 1), (''C'', ''D'', 1)]
       [\<lambda>n q. q]) ''A'' ''D'' = Some (Lst (Fin 2) ''B'')"
    by (simp add: sim_defs keysABCD_def)
  have k: "neighbours_at (simulate keysABCD
       [(''A'', ''B'', 1), (''A'', ''C'', 1), (''B'', ''D'', 1), (''C'', ''D'', 1)]
       [\<lambda>n q. q]) ''A'' = Some [''B'', ''C'']"
    by (simp add: sim_defs keysABCD_def)
  have d: "''D'' \<noteq> ''A''" by simp
  have c: "cost_of (Lst (Fin 2) ''B'') = Fin 2" by simp
  from next_hop_is_neighbour [OF a h k d c] h k arrival_order_id show ?thesis
    by (simp add: keysABCD_def)
qed

end
